theory Spec2Isabelle
  imports Main "HOL-Library.Multiset" "HOL-Library.Word"
begin

section \<open>The PEB map (PMAP) sub-system\<close>

text \<open>
  The definitions of this section embed the PEB map code of the later draft of
  \<^verbatim>\<open>pmap.c\<close> (the one with per-volume reserved areas,
  \<^verbatim>\<open>ubi_pmap_extract_vol_pebs\<close> and \<^verbatim>\<open>ubi_pmap_allocate_vol_pebs\<close>).
  C \<^verbatim>\<open>int\<close> values are modelled as unbounded integers: signed overflow is undefined
  in C and none of the functions relies on it. The PEB map is the array
  \<^verbatim>\<open>peb_map[0 .. peb_count-1]\<close>, a list here; an entry is read with
  \<open>pm ! nat pnum\<close> and written with \<open>pm[nat pnum := e]\<close>.
\<close>

subsection \<open>Data\<close>

record ubi_pmap =
  vol_id :: int
  lnum :: int
  inuse :: bool
  bad :: bool

text \<open>
  \<^verbatim>\<open>struct ubi_device\<close>, reduced to what the PEB map code reads. The header that
  defines \<^verbatim>\<open>UBI_LAYOUT_VOLUME_ID\<close> and \<^verbatim>\<open>UBI_LAYOUT_VOLUME_RESERVED_EBS\<close>
  is not part of the sources, so the two constants are fields of the device
  description and every theorem holds for all their values.
\<close>

record ubi_device =
  peb_count :: int
  UBI_LAYOUT_VOLUME_ID :: int
  UBI_LAYOUT_VOLUME_RESERVED_EBS :: int

definition ENOMEM :: int where
  "ENOMEM = 12"

definition EINVAL :: int where
  "EINVAL = 22"

text \<open>An entry after \<^verbatim>\<open>memset(pmap, 0, sizeof(struct ubi_pmap))\<close>.\<close>

definition zero_pmap :: ubi_pmap where
  "zero_pmap = \<lparr>vol_id = 0, lnum = 0, inuse = False, bad = False\<rparr>"

definition ubi_pmap_init :: "ubi_device \<Rightarrow> ubi_pmap list" where
  "ubi_pmap_init ubi = replicate (nat (peb_count ubi)) zero_pmap"

definition ubi_pmap_vol_reserved_area :: "ubi_device \<Rightarrow> int \<Rightarrow> int \<times> int" where
  "ubi_pmap_vol_reserved_area ubi vol =
     (if vol = UBI_LAYOUT_VOLUME_ID ubi
      then (0, UBI_LAYOUT_VOLUME_RESERVED_EBS ubi - 1)
      else (UBI_LAYOUT_VOLUME_RESERVED_EBS ubi, peb_count ubi - 1))"

subsection \<open>Counting and lookup\<close>

function vol_peb_count_loop :: "ubi_pmap list \<Rightarrow> int \<Rightarrow> int \<Rightarrow> int \<Rightarrow> int \<Rightarrow> int" where
  "vol_peb_count_loop pm vol last_peb pnum number =
     (if pnum \<le> last_peb then
        (let pmap = pm ! nat pnum in
         vol_peb_count_loop pm vol last_peb (pnum + 1)
           (if vol_id pmap = vol \<and> inuse pmap \<and> \<not> bad pmap then number + 1 else number))
      else number)"
  by pat_completeness auto
termination
  by (relation "measure (\<lambda>(pm, vol, last_peb, pnum, number). nat (last_peb + 1 - pnum))") auto

definition ubi_pmap_vol_peb_count :: "ubi_device \<Rightarrow> ubi_pmap list \<Rightarrow> int \<Rightarrow> int" where
  "ubi_pmap_vol_peb_count ubi peb_map vol =
     (let (first_peb, last_peb) = ubi_pmap_vol_reserved_area ubi vol
      in vol_peb_count_loop peb_map vol last_peb first_peb 0)"

function lookup_pnum_loop :: "ubi_pmap list \<Rightarrow> int \<Rightarrow> int \<Rightarrow> int \<Rightarrow> int \<Rightarrow> int" where
  "lookup_pnum_loop pm vol leb last_peb pnum =
     (if pnum \<le> last_peb then
        (let pmap = pm ! nat pnum in
         if vol_id pmap = vol \<and> lnum pmap = leb \<and> inuse pmap \<and> \<not> bad pmap
         then pnum
         else lookup_pnum_loop pm vol leb last_peb (pnum + 1))
      else - 1)"
  by pat_completeness auto
termination
  by (relation "measure (\<lambda>(pm, vol, leb, last_peb, pnum). nat (last_peb + 1 - pnum))") auto

definition ubi_pmap_lookup_pnum :: "ubi_device \<Rightarrow> ubi_pmap list \<Rightarrow> int \<Rightarrow> int \<Rightarrow> int" where
  "ubi_pmap_lookup_pnum ubi peb_map vol leb =
     (let (first_peb, last_peb) = ubi_pmap_vol_reserved_area ubi vol
      in lookup_pnum_loop peb_map vol leb last_peb first_peb)"

subsection \<open>Extracting and allocating runs\<close>

text \<open>
  \<^verbatim>\<open>ubi_pmap_extract_vol_pebs\<close> calls \<^verbatim>\<open>vol_pebs_cb\<close> once per run and stops at
  the first non-zero result. The callback and its \<^verbatim>\<open>usr_ptr\<close> are a function on
  a user state \<open>'u\<close>: it takes the state and \<open>vol_id\<close>, \<open>peb\<close>, \<open>leb\<close>, \<open>blocks\<close>,
  \<open>bad\<close>, and returns the error code and the new state. The loop variable
  \<^verbatim>\<open>block_first_pmap\<close> always points at entry \<^verbatim>\<open>block_first_idx\<close>, so the pair is
  the option \<open>blk\<close>: \<open>None\<close> is the \<^verbatim>\<open>NULL\<close> pointer.
\<close>

type_synonym 'u vol_pebs_cb = "'u \<Rightarrow> int \<Rightarrow> int \<Rightarrow> int \<Rightarrow> int \<Rightarrow> bool \<Rightarrow> int \<times> 'u"

function extract_loop ::
  "ubi_device \<Rightarrow> ubi_pmap list \<Rightarrow> 'u vol_pebs_cb \<Rightarrow> int \<Rightarrow> int option \<Rightarrow> 'u \<Rightarrow> int \<times> 'u" where
  "extract_loop ubi pm cb i blk usr =
     (if i < peb_count ubi then
        (let pmap = pm ! nat i in
         case blk of
           None \<Rightarrow> extract_loop ubi pm cb (i + 1) (if inuse pmap then Some i else None) usr
         | Some block_first_idx \<Rightarrow>
             (let block_first_pmap = pm ! nat block_first_idx in
              if \<not> inuse pmap \<or>
                 vol_id pmap \<noteq> vol_id block_first_pmap \<or>
                 bad pmap \<noteq> bad block_first_pmap \<or>
                 lnum pmap \<noteq> lnum block_first_pmap + i - block_first_idx
              then
                (let (err, usr') =
                       cb usr (vol_id block_first_pmap) block_first_idx
                          (lnum block_first_pmap) (i - block_first_idx) (bad block_first_pmap)
                 in if err \<noteq> 0 then (err, usr')
                    else extract_loop ubi pm cb (i + 1) (if inuse pmap then Some i else None) usr')
              else extract_loop ubi pm cb (i + 1) blk usr))
      else (0, usr))"
  by pat_completeness auto
termination
  by (relation "measure (\<lambda>(ubi, pm, cb, i, blk, usr). nat (peb_count ubi - i))") auto

definition ubi_pmap_extract_vol_pebs ::
  "ubi_device \<Rightarrow> ubi_pmap list \<Rightarrow> 'u vol_pebs_cb \<Rightarrow> 'u \<Rightarrow> int \<times> 'u" where
  "ubi_pmap_extract_vol_pebs ubi peb_map vol_pebs_cb usr_ptr =
     extract_loop ubi peb_map vol_pebs_cb 0 None usr_ptr"

text \<open>The first loop of \<^verbatim>\<open>ubi_pmap_allocate_vol_pebs\<close>: is any target entry already
  in use for the volume?\<close>

function allocated_loop :: "ubi_pmap list \<Rightarrow> int \<Rightarrow> int \<Rightarrow> int \<Rightarrow> int \<Rightarrow> bool" where
  "allocated_loop pm vol peb blocks i =
     (if i < blocks then
        (let pmap = pm ! nat (peb + i) in
         if vol_id pmap = vol \<and> inuse pmap then True
         else allocated_loop pm vol peb blocks (i + 1))
      else False)"
  by pat_completeness auto
termination
  by (relation "measure (\<lambda>(pm, vol, peb, blocks, i). nat (blocks - i))") auto

function allocate_loop ::
  "ubi_pmap list \<Rightarrow> int \<Rightarrow> int \<Rightarrow> int \<Rightarrow> int \<Rightarrow> bool \<Rightarrow> int \<Rightarrow> ubi_pmap list" where
  "allocate_loop pm vol peb leb blocks bd i =
     (if i < blocks then
        (let pmap = pm ! nat (peb + i);
             pmap = pmap\<lparr>vol_id := vol, lnum := leb + i\<rparr>;
             pmap = (if \<not> bd then pmap\<lparr>inuse := True, bad := False\<rparr>
                     else pmap\<lparr>inuse := False, bad := True\<rparr>)
         in allocate_loop (pm[nat (peb + i) := pmap]) vol peb leb blocks bd (i + 1))
      else pm)"
  by pat_completeness auto
termination
  by (relation "measure (\<lambda>(pm, vol, peb, leb, blocks, bd, i). nat (blocks - i))") auto

definition ubi_pmap_allocate_vol_pebs ::
  "ubi_device \<Rightarrow> ubi_pmap list \<Rightarrow> int \<Rightarrow> int \<Rightarrow> int \<Rightarrow> int \<Rightarrow> bool \<Rightarrow> int \<times> ubi_pmap list" where
  "ubi_pmap_allocate_vol_pebs ubi peb_map vol peb leb blocks bd =
     (let (first_peb, last_peb) = ubi_pmap_vol_reserved_area ubi vol in
      if peb < first_peb \<or> peb + blocks > last_peb + 1 then (- EINVAL, peb_map)
      else if allocated_loop peb_map vol peb blocks 0 then (- EINVAL, peb_map)
      else (0, allocate_loop peb_map vol peb leb blocks bd 0))"

subsection \<open>Resizing a volume\<close>

function resize_clear_loop :: "ubi_pmap list \<Rightarrow> int \<Rightarrow> int \<Rightarrow> int \<Rightarrow> ubi_pmap list" where
  "resize_clear_loop pm vol last_peb pnum =
     (if pnum \<le> last_peb then
        resize_clear_loop
          (if vol_id (pm ! nat pnum) = vol then pm[nat pnum := zero_pmap] else pm)
          vol last_peb (pnum + 1)
      else pm)"
  by pat_completeness auto
termination
  by (relation "measure (\<lambda>(pm, vol, last_peb, pnum). nat (last_peb + 1 - pnum))") auto

function resize_count_loop :: "ubi_pmap list \<Rightarrow> int \<Rightarrow> int \<Rightarrow> int \<Rightarrow> int \<Rightarrow> int" where
  "resize_count_loop pm vol last_peb pnum ln =
     (if pnum \<le> last_peb then
        (let pmap = pm ! nat pnum in
         resize_count_loop pm vol last_peb (pnum + 1)
           (if vol_id pmap = vol \<and> inuse pmap \<and> \<not> bad pmap then ln + 1 else ln))
      else ln)"
  by pat_completeness auto
termination
  by (relation "measure (\<lambda>(pm, vol, last_peb, pnum, ln). nat (last_peb + 1 - pnum))") auto

text \<open>The growing loop returns the map and the running count \<^verbatim>\<open>lnum\<close>; it leaves
  the loop at the \<^verbatim>\<open>break\<close> or at the end of the reserved area.\<close>

function resize_grow_loop ::
  "ubi_pmap list \<Rightarrow> int \<Rightarrow> int \<Rightarrow> int \<Rightarrow> int \<Rightarrow> int \<Rightarrow> ubi_pmap list \<times> int" where
  "resize_grow_loop pm vol reserved_pebs last_peb pnum ln =
     (if pnum \<le> last_peb then
        (let pmap = pm ! nat pnum in
         if \<not> inuse pmap \<and> \<not> bad pmap then
           (let pm' = pm[nat pnum := pmap\<lparr>inuse := True, vol_id := vol, lnum := ln\<rparr>];
                ln' = ln + 1
            in if ln' = reserved_pebs then (pm', ln')
               else resize_grow_loop pm' vol reserved_pebs last_peb (pnum + 1) ln')
         else resize_grow_loop pm vol reserved_pebs last_peb (pnum + 1) ln)
      else (pm, ln))"
  by pat_completeness auto
termination
  by (relation "measure (\<lambda>(pm, vol, reserved_pebs, last_peb, pnum, ln). nat (last_peb + 1 - pnum))")
     auto

text \<open>
  The shrinking loop is \<^verbatim>\<open>while (true)\<close> with a single \<^verbatim>\<open>break\<close>, and its index
  wraps from \<^verbatim>\<open>first_peb\<close> back to \<^verbatim>\<open>last_peb\<close>. Nothing in the loop bounds the
  number of rounds, so it is a partial function: \<open>None\<close> is a loop that never
  leaves.
\<close>

partial_function (option) resize_shrink_loop ::
  "ubi_pmap list \<Rightarrow> int \<Rightarrow> int \<Rightarrow> int \<Rightarrow> int \<Rightarrow> int \<Rightarrow> int \<Rightarrow> ubi_pmap list option" where
  "resize_shrink_loop pm vol reserved_pebs first_peb last_peb pnum ln =
     (let pmap = pm ! nat pnum in
      if vol_id pmap = vol \<and> lnum pmap = ln - 1 \<and> inuse pmap \<and> \<not> bad pmap then
        (let ln' = ln - 1;
             pm' = pm[nat pnum := pmap\<lparr>inuse := False\<rparr>]
         in if ln' = reserved_pebs then Some pm'
            else resize_shrink_loop pm' vol reserved_pebs first_peb last_peb
                   (if pnum - 1 < first_peb then last_peb else pnum - 1) ln')
      else resize_shrink_loop pm vol reserved_pebs first_peb last_peb
             (if pnum - 1 < first_peb then last_peb else pnum - 1) ln)"

text \<open>\<^verbatim>\<open>ubi_pmap_resize_volume\<close> returns 0 on every path that returns; the result is
  the return value and the new map, or \<open>None\<close> when the shrinking loop never
  leaves.\<close>

definition ubi_pmap_resize_volume ::
  "ubi_device \<Rightarrow> ubi_pmap list \<Rightarrow> int \<Rightarrow> int \<Rightarrow> (int \<times> ubi_pmap list) option" where
  "ubi_pmap_resize_volume ubi peb_map vol reserved_pebs =
     (let (first_peb, last_peb) = ubi_pmap_vol_reserved_area ubi vol in
      if reserved_pebs = 0 then Some (0, resize_clear_loop peb_map vol last_peb first_peb)
      else
        (let ln = resize_count_loop peb_map vol last_peb first_peb 0;
             (pm1, ln1) = (if ln < reserved_pebs
                           then resize_grow_loop peb_map vol reserved_pebs last_peb first_peb ln
                           else (peb_map, ln))
         in if ln1 > reserved_pebs
            then map_option (Pair 0)
                   (resize_shrink_loop pm1 vol reserved_pebs first_peb last_peb last_peb ln1)
            else Some (0, pm1)))"

subsection \<open>Marking a PEB bad\<close>

function markbad_search_loop ::
  "ubi_pmap list \<Rightarrow> int \<Rightarrow> int \<Rightarrow> int \<Rightarrow> int \<Rightarrow> int \<times> ubi_pmap list" where
  "markbad_search_loop pm vol leb last_peb replacment_pnum =
     (if replacment_pnum \<le> last_peb then
        (let replacment_pmap = pm ! nat replacment_pnum in
         if \<not> inuse replacment_pmap \<and> \<not> bad replacment_pmap
         then (replacment_pnum,
               pm[nat replacment_pnum := replacment_pmap\<lparr>inuse := True, vol_id := vol, lnum := leb\<rparr>])
         else markbad_search_loop pm vol leb last_peb (replacment_pnum + 1))
      else (- ENOMEM, pm))"
  by pat_completeness auto
termination
  by (relation "measure (\<lambda>(pm, vol, leb, last_peb, p). nat (last_peb + 1 - p))") auto

definition ubi_pmap_markbad_replace ::
  "ubi_device \<Rightarrow> ubi_pmap list \<Rightarrow> int \<Rightarrow> int \<times> ubi_pmap list" where
  "ubi_pmap_markbad_replace ubi peb_map pnum =
     (let pmap = peb_map ! nat pnum;
          need_replacment = (inuse pmap \<and> \<not> bad pmap);
          pmap = pmap\<lparr>bad := True, inuse := False\<rparr>;
          pm = peb_map[nat pnum := pmap];
          (first_peb, last_peb) = ubi_pmap_vol_reserved_area ubi (vol_id pmap)
      in if need_replacment
         then markbad_search_loop pm (vol_id pmap) (lnum pmap) last_peb first_peb
         else (pnum, pm))"


subsection \<open>The earlier draft in \<^verbatim>\<open>drivers/mtd/ubi2/pmap.c\<close>\<close>

text \<open>
  \<^verbatim>\<open>drivers/mtd/ubi2/pmap.c\<close> holds an earlier draft of the same functions. It has no
  reserved areas: its loops are the loops above run from PEB 0 to
  \<^verbatim>\<open>peb_count - 1\<close>. Its \<^verbatim>\<open>ubi_pmap_resize_volume\<close> has the shrinking part compiled
  out (\<^verbatim>\<open>#if 0\<close>), and its \<^verbatim>\<open>ubi_pmap_markbad_replace\<close> sets \<^verbatim>\<open>bad\<close> and leaves
  \<^verbatim>\<open>inuse\<close> as it is.
\<close>

definition ubi_pmap_resize_volume_old ::
  "ubi_device \<Rightarrow> ubi_pmap list \<Rightarrow> int \<Rightarrow> int \<Rightarrow> int \<times> ubi_pmap list" where
  "ubi_pmap_resize_volume_old ubi peb_map vol reserved_pebs =
     (if reserved_pebs = 0 then (0, resize_clear_loop peb_map vol (peb_count ubi - 1) 0)
      else
        (let ln = resize_count_loop peb_map vol (peb_count ubi - 1) 0 0
         in if ln < reserved_pebs
            then (0, fst (resize_grow_loop peb_map vol reserved_pebs (peb_count ubi - 1) 0 ln))
            else (0, peb_map)))"

definition ubi_pmap_markbad_replace_old ::
  "ubi_device \<Rightarrow> ubi_pmap list \<Rightarrow> int \<Rightarrow> int \<times> ubi_pmap list" where
  "ubi_pmap_markbad_replace_old ubi peb_map pnum =
     (let pmap = peb_map ! nat pnum;
          need_replacment = (inuse pmap \<and> \<not> bad pmap);
          pmap = pmap\<lparr>bad := True\<rparr>;
          pm = peb_map[nat pnum := pmap]
      in if need_replacment
         then markbad_search_loop pm (vol_id pmap) (lnum pmap) (peb_count ubi - 1) 0
         else (pnum, pm))"

section \<open>The layout volume: reading and recovering the two table copies\<close>

text \<open>
  The definitions of this section embed \<^verbatim>\<open>create_vtbl\<close>, \<^verbatim>\<open>process_lvol\<close>,
  \<^verbatim>\<open>create_empty_lvol\<close> and \<^verbatim>\<open>ubi_read_volume_table\<close> of
  \<^verbatim>\<open>drivers/mtd/ubi2/vtbl.c\<close> (the second, later copy of the code in that file;
  the first copy has the same \<^verbatim>\<open>process_lvol\<close>). A table image, the content of
  one logical eraseblock (LEB) of the layout volume, is a list of bytes;
  \<^verbatim>\<open>memcmp\<close> of two images is their equality. The sizes \<^verbatim>\<open>vtbl_size\<close> and
  \<^verbatim>\<open>ptbl_size\<close> are not modelled: an image is read and written whole.
  \<^verbatim>\<open>process_lvol\<close> declares the array \<^verbatim>\<open>leb_pmap\<close> and uses \<^verbatim>\<open>pmap_leb\<close>; the two
  names are one array here.
\<close>

type_synonym image = "8 word list"

text \<open>The flash of the layout volume: the content of its LEBs, and the unmap and
  write operations performed so far, in order.\<close>

datatype io_op = Unmap int | Write int image

record lvol_flash =
  lebs :: "int \<Rightarrow> image"
  io_log :: "io_op list"

text \<open>
  What the code takes from outside \<^verbatim>\<open>vtbl.c\<close>, as parameters, so that every
  theorem holds for all of them:
  whether the two \<^verbatim>\<open>vmalloc\<close> calls of round \<open>i\<close> of the reading loop succeed;
  the result of \<^verbatim>\<open>ubi_eba_read_leb\<close>, \<^verbatim>\<open>ubi_eba_unmap_leb\<close> and
  \<^verbatim>\<open>ubi_eba_write_leb\<close> on each LEB, with what a failed read leaves in the
  buffer, what an unmapped LEB holds and what a failed write leaves on flash;
  the validation \<^verbatim>\<open>vtbl_check\<close> (0 for a valid pair of images, 1 for a CRC
  failure, negative for inconsistent data), which depends on the record layouts
  and the CRC of headers that are not part of the sources;
  the results of \<^verbatim>\<open>init_layout_volume\<close>, \<^verbatim>\<open>init_volumes\<close> and
  \<^verbatim>\<open>check_volume_pmap\<close>, which work on the in-RAM structures;
  and the two images that \<^verbatim>\<open>create_empty_lvol\<close> builds before it writes them
  (\<open>None\<close> when it gives up with \<^verbatim>\<open>-ENOMEM\<close>).
\<close>

record io_env =
  vmalloc_vtbl_ok :: "int \<Rightarrow> bool"
  vmalloc_ptbl_ok :: "int \<Rightarrow> bool"
  read_err :: "int \<Rightarrow> int"
  read_garbage :: "int \<Rightarrow> image"
  unmap_err :: "int \<Rightarrow> int"
  write_err :: "int \<Rightarrow> int"
  erased :: image
  torn_write :: "int \<Rightarrow> image"
  vtbl_check :: "image \<Rightarrow> image \<Rightarrow> int"
  init_layout_volume :: int
  empty_lvol_tables :: "(image \<times> image) option"
  init_volumes :: "image \<Rightarrow> image \<Rightarrow> int"
  check_volume_pmap :: "image \<Rightarrow> image \<Rightarrow> int"

text \<open>
  Modelled from the spec: the constants \<^verbatim>\<open>UBI_LAYOUT_VOLUME_COPIES\<close> and
  \<^verbatim>\<open>UBI_LAYOUT_VOLUME_EBS_PER_COPY\<close>, whose header is not part of the sources. The
  layout volume "holds exactly two independent copies, each occupying a fixed
  pair of logical blocks". The code agrees: the arrays of \<^verbatim>\<open>process_lvol\<close> are
  initialised with two elements, \<^verbatim>\<open>create_empty_lvol\<close> writes one copy per
  \<open>i < UBI_LAYOUT_VOLUME_COPIES\<close>, and \<^verbatim>\<open>create_vtbl\<close> writes copy \<open>c\<close> to the LEBs
  \<open>c * UBI_LAYOUT_VOLUME_EBS_PER_COPY\<close> and the next one.
\<close>

definition UBI_LAYOUT_VOLUME_COPIES :: int where
  "UBI_LAYOUT_VOLUME_COPIES = 2"

definition UBI_LAYOUT_VOLUME_EBS_PER_COPY :: int where
  "UBI_LAYOUT_VOLUME_EBS_PER_COPY = 2"

definition ubi_eba_read_leb :: "io_env \<Rightarrow> lvol_flash \<Rightarrow> int \<Rightarrow> int \<times> image" where
  "ubi_eba_read_leb env fl l =
     (read_err env l, if read_err env l = 0 then lebs fl l else read_garbage env l)"

definition ubi_eba_unmap_leb :: "io_env \<Rightarrow> lvol_flash \<Rightarrow> int \<Rightarrow> int \<times> lvol_flash" where
  "ubi_eba_unmap_leb env fl l =
     (unmap_err env l,
      fl\<lparr>lebs := (if unmap_err env l = 0 then (lebs fl)(l := erased env) else lebs fl),
         io_log := io_log fl @ [Unmap l]\<rparr>)"

definition ubi_eba_write_leb :: "io_env \<Rightarrow> lvol_flash \<Rightarrow> int \<Rightarrow> image \<Rightarrow> int \<times> lvol_flash" where
  "ubi_eba_write_leb env fl l buf =
     (write_err env l,
      fl\<lparr>lebs := (lebs fl)(l := (if write_err env l = 0 then buf else torn_write env l)),
         io_log := io_log fl @ [Write l buf]\<rparr>)"

definition create_vtbl :: "io_env \<Rightarrow> lvol_flash \<Rightarrow> int \<Rightarrow> image \<Rightarrow> image \<Rightarrow> int \<times> lvol_flash" where
  "create_vtbl env fl copy vtbl ptbl =
     (let leb = copy * UBI_LAYOUT_VOLUME_EBS_PER_COPY;
          (err, fl) = ubi_eba_unmap_leb env fl leb
      in if err \<noteq> 0 then (err, fl) else
         (let (err, fl) = ubi_eba_write_leb env fl leb vtbl
          in if err \<noteq> 0 then (err, fl) else
             (let (err, fl) = ubi_eba_unmap_leb env fl (leb + 1)
              in if err \<noteq> 0 then (err, fl) else
                 ubi_eba_write_leb env fl (leb + 1) ptbl)))"

text \<open>
  The reading loop of \<^verbatim>\<open>process_lvol\<close>:
  \<^verbatim>\<open>for (i = 0; i < UBI_LAYOUT_VOLUME_COPIES; i += UBI_LAYOUT_VOLUME_EBS_PER_COPY)\<close>.
  Round \<open>i\<close> allocates \<^verbatim>\<open>leb[i]\<close> and \<^verbatim>\<open>pmap_leb[i]\<close> and reads LEB \<open>i\<close> and LEB
  \<open>i + 1\<close> into them; the error of a read is dropped. A failed allocation
  leaves the function with \<^verbatim>\<open>-ENOMEM\<close>.
\<close>

function read_copies ::
  "io_env \<Rightarrow> lvol_flash \<Rightarrow> int \<Rightarrow> image option list \<Rightarrow> image option list \<Rightarrow>
   int + image option list \<times> image option list" where
  "read_copies env fl i leb pmap_leb =
     (if i < UBI_LAYOUT_VOLUME_COPIES then
        (if \<not> vmalloc_vtbl_ok env i then Inl (- ENOMEM)
         else if \<not> vmalloc_ptbl_ok env i then Inl (- ENOMEM)
         else read_copies env fl (i + UBI_LAYOUT_VOLUME_EBS_PER_COPY)
                (leb[nat i := Some (snd (ubi_eba_read_leb env fl i))])
                (pmap_leb[nat i := Some (snd (ubi_eba_read_leb env fl (i + 1)))]))
      else Inr (leb, pmap_leb))"
  by pat_completeness auto

termination
  by (relation "measure (\<lambda>(env, fl, i, leb, pmap_leb). nat (UBI_LAYOUT_VOLUME_COPIES - i))")
     (auto simp: UBI_LAYOUT_VOLUME_EBS_PER_COPY_def)

text \<open>The result of \<^verbatim>\<open>process_lvol\<close> is its return value, the flash, and the pair
  \<^verbatim>\<open>(ubi->vtbl, ubi->ptbl)\<close> it has set when it returns 0.\<close>

definition process_lvol ::
  "io_env \<Rightarrow> lvol_flash \<Rightarrow> int \<times> lvol_flash \<times> (image \<times> image) option" where
  "process_lvol env fl =
     (case read_copies env fl 0 [None, None] [None, None] of
        Inl err \<Rightarrow> (err, fl, None)
      | Inr (leb, pmap_leb) \<Rightarrow>
          (let copy_corrupted0 =
                 (case (leb ! 0, pmap_leb ! 0) of
                    (Some v0, Some p0) \<Rightarrow> vtbl_check env v0 p0
                  | _ \<Rightarrow> 1)
           in if copy_corrupted0 < 0 then (- EINVAL, fl, None)
              else if copy_corrupted0 = 0 then
                (let v0 = the (leb ! 0); p0 = the (pmap_leb ! 0);
                     copy_corrupted1 =
                       (case (leb ! 1, pmap_leb ! 1) of
                          (Some v1, Some p1) \<Rightarrow> if v0 = v1 \<and> p0 = p1 then 0 else 1
                        | _ \<Rightarrow> (1::int))
                 in if copy_corrupted1 \<noteq> 0 then
                      (let (err, fl) = create_vtbl env fl 1 v0 p0
                       in if err \<noteq> 0 then (err, fl, None) else (0, fl, Some (v0, p0)))
                    else (0, fl, Some (v0, p0)))
              else
                (let copy_corrupted1 =
                       (case leb ! 1 of
                          Some v1 \<Rightarrow> vtbl_check env v1 (the (pmap_leb ! 1))
                        | None \<Rightarrow> 1)
                 in if copy_corrupted1 < 0 then (- EINVAL, fl, None)
                    else if copy_corrupted1 \<noteq> 0 then (- EINVAL, fl, None)
                    else
                      (let v1 = the (leb ! 1); p1 = the (pmap_leb ! 1);
                           (err, fl) = create_vtbl env fl 0 v1 p1
                       in if err \<noteq> 0 then (err, fl, None) else (0, fl, Some (v1, p1))))))"

text \<open>The writing loop of \<^verbatim>\<open>create_empty_lvol\<close>, and the function itself.\<close>

function create_empty_copies ::
  "io_env \<Rightarrow> lvol_flash \<Rightarrow> int \<Rightarrow> image \<Rightarrow> image \<Rightarrow> int \<times> lvol_flash" where
  "create_empty_copies env fl i vtbl ptbl =
     (if i < UBI_LAYOUT_VOLUME_COPIES then
        (let (err, fl) = create_vtbl env fl i vtbl ptbl
         in if err \<noteq> 0 then (err, fl) else create_empty_copies env fl (i + 1) vtbl ptbl)
      else (0, fl))"
  by pat_completeness auto

termination
  by (relation "measure (\<lambda>(env, fl, i, vtbl, ptbl). nat (UBI_LAYOUT_VOLUME_COPIES - i))") auto

definition create_empty_lvol ::
  "io_env \<Rightarrow> lvol_flash \<Rightarrow> int \<times> lvol_flash \<times> (image \<times> image) option" where
  "create_empty_lvol env fl =
     (case empty_lvol_tables env of
        None \<Rightarrow> (- ENOMEM, fl, None)
      | Some (vtbl, ptbl) \<Rightarrow>
          (let (err, fl) = create_empty_copies env fl 0 vtbl ptbl
           in if err \<noteq> 0 then (err, fl, None) else (0, fl, Some (vtbl, ptbl))))"

text \<open>\<^verbatim>\<open>ubi_read_volume_table\<close>, from the call of \<^verbatim>\<open>init_layout_volume\<close> on.\<close>

definition ubi_read_volume_table ::
  "io_env \<Rightarrow> lvol_flash \<Rightarrow> int \<times> lvol_flash \<times> (image \<times> image) option" where
  "ubi_read_volume_table env fl =
     (if init_layout_volume env \<noteq> 0 then (init_layout_volume env, fl, None)
      else
        (let (perr, fl, tbls) = process_lvol env fl;
             (err, fl, tbls) = (if perr \<noteq> 0 then create_empty_lvol env fl else (0, fl, tbls))
         in if err \<noteq> 0 then (err, fl, None)
            else
              (let (vtbl, ptbl) = the tbls
               in if init_volumes env vtbl ptbl \<noteq> 0 then (init_volumes env vtbl ptbl, fl, None)
                  else if check_volume_pmap env vtbl ptbl \<noteq> 0
                       then (check_volume_pmap env vtbl ptbl, fl, None)
                       else (0, fl, tbls))))"

section \<open>The payload offset (PPO) decoder\<close>

text \<open>
  Modelled from the spec: the PPO byte decoder and the decoder of a PPO region.
  The sources hold no code for them, only the design note on the PPO byte
  values. A byte stands for one unit of offset and is read by the number of its
  set bits: zero, one or two bits set is the value 0 (the byte was programmed,
  with up to two bit errors), six, seven or eight bits set is the value 1 (the
  byte is erased, with up to two bit errors), three to five bits set is invalid,
  one row of the spec's table per branch. The decoded PPO of a region is the
  number of its leading bytes of value 0 (in the design note, five bytes
  \<^verbatim>\<open>0x00\<close> followed by \<^verbatim>\<open>0xff\<close> bytes are the offset +5), and an invalid byte
  anywhere in the region makes the decoding fail.
\<close>

datatype ppo_unit = Unit0 | Unit1 | Invalid

definition popcount8 :: "8 word \<Rightarrow> nat" where
  "popcount8 b = length (filter (bit b) [0..<8])"

definition ppo_decode_byte :: "8 word \<Rightarrow> ppo_unit" where
  "ppo_decode_byte b =
     (let n = popcount8 b
      in if n = 0 then Unit0
         else if n = 1 then Unit0
         else if n = 2 then Unit0
         else if 3 \<le> n \<and> n \<le> 5 then Invalid
         else if n = 6 then Unit1
         else if n = 7 then Unit1
         else Unit1)"

definition ppo_decode :: "8 word list \<Rightarrow> nat option" where
  "ppo_decode region =
     (if \<exists>b \<in> set region. ppo_decode_byte b = Invalid then None
      else Some (length (takeWhile (\<lambda>b. ppo_decode_byte b = Unit0) region)))"

subsection \<open>Derived notions used in the statements\<close>

declare resize_shrink_loop.simps [code]

declare vol_peb_count_loop.simps [simp del] lookup_pnum_loop.simps [simp del]
  extract_loop.simps [simp del] allocated_loop.simps [simp del] allocate_loop.simps [simp del]
  resize_clear_loop.simps [simp del] resize_count_loop.simps [simp del]
  resize_grow_loop.simps [simp del] markbad_search_loop.simps [simp del]

text \<open>A PEB that the growing loop and the replacement search may take.\<close>

definition peb_free :: "ubi_pmap list \<Rightarrow> int \<Rightarrow> bool" where
  "peb_free pm p = (\<not> inuse (pm ! nat p) \<and> \<not> bad (pm ! nat p))"

text \<open>
  The map has one entry per PEB and the reserved area of the layout volume lies
  inside the device. Outside these conditions the C code reads or writes past
  the end of \<^verbatim>\<open>peb_map\<close>.
\<close>

definition wf_pmap :: "ubi_device \<Rightarrow> ubi_pmap list \<Rightarrow> bool" where
  "wf_pmap ubi pm =
     (int (length pm) = peb_count ubi \<and> 0 \<le> UBI_LAYOUT_VOLUME_RESERVED_EBS ubi \<and>
      UBI_LAYOUT_VOLUME_RESERVED_EBS ubi \<le> peb_count ubi)"

text \<open>The free PEBs of a range, in ascending order, and the PEBs of a range that a
  volume owns (in use for it and not bad).\<close>

definition free_pebs :: "ubi_pmap list \<Rightarrow> int \<Rightarrow> int \<Rightarrow> int list" where
  "free_pebs pm first_peb last_peb = filter (peb_free pm) [first_peb..last_peb]"

text \<open>What the growing loop leaves when it runs to the end of the reserved area
  without reaching the requested size: every free PEB from \<open>p\<close> on is taken, with
  consecutive logical numbers from \<open>ln\<close>.\<close>

definition grow_all :: "ubi_pmap list \<Rightarrow> int \<Rightarrow> int \<Rightarrow> int \<Rightarrow> int \<Rightarrow> ubi_pmap list" where
  "grow_all pm vol ln p last_peb =
     map (\<lambda>i. if p \<le> int i \<and> int i \<le> last_peb \<and> peb_free pm (int i)
              then \<lparr>vol_id = vol, lnum = ln + int (length (free_pebs pm p (int i - 1))),
                    inuse = True, bad = False\<rparr>
              else pm ! i) [0..<length pm]"

definition peb_owned :: "ubi_pmap list \<Rightarrow> int \<Rightarrow> int \<Rightarrow> bool" where
  "peb_owned pm vol p = (vol_id (pm ! nat p) = vol \<and> inuse (pm ! nat p) \<and> \<not> bad (pm ! nat p))"

definition vol_pebs :: "ubi_pmap list \<Rightarrow> int \<Rightarrow> int \<Rightarrow> int \<Rightarrow> int list" where
  "vol_pebs pm vol first_peb last_peb = filter (peb_owned pm vol) [first_peb..last_peb]"

text \<open>A small device for the examples: four PEBs, the first one reserved for the
  layout volume.\<close>

definition dev4 :: ubi_device where
  "dev4 = \<lparr>peb_count = 4, UBI_LAYOUT_VOLUME_ID = 100, UBI_LAYOUT_VOLUME_RESERVED_EBS = 1\<rparr>"

definition used :: "int \<Rightarrow> int \<Rightarrow> ubi_pmap" where
  "used vol leb = \<lparr>vol_id = vol, lnum = leb, inuse = True, bad = False\<rparr>"

definition marked_bad :: "int \<Rightarrow> int \<Rightarrow> ubi_pmap" where
  "marked_bad vol leb = \<lparr>vol_id = vol, lnum = leb, inuse = False, bad = True\<rparr>"

text \<open>The state of the example device after volume 5 was created with three PEBs
  and PEB 2 was marked bad with no free PEB left to replace it.\<close>

definition pm_hole :: "ubi_pmap list" where
  "pm_hole = [zero_pmap, used 5 0, marked_bad 5 1, used 5 2]"

subsection \<open>Reachable maps and the shape of one step\<close>

text \<open>The reserved area of the layout volume lies inside the device.\<close>

definition wf_dev :: "ubi_device \<Rightarrow> bool" where
  "wf_dev ubi = (0 \<le> UBI_LAYOUT_VOLUME_RESERVED_EBS ubi \<and>
                UBI_LAYOUT_VOLUME_RESERVED_EBS ubi \<le> peb_count ubi)"

text \<open>The maps that a sequence of \<^verbatim>\<open>ubi_pmap_allocate_vol_pebs\<close>,
  \<^verbatim>\<open>ubi_pmap_resize_volume\<close> and \<^verbatim>\<open>ubi_pmap_markbad_replace\<close> calls produces from
  a freshly initialised map. A resize that never returns produces nothing, and
  \<^verbatim>\<open>ubi_pmap_markbad_replace\<close> is called with a PEB number of the device.\<close>

inductive reachable :: "ubi_device \<Rightarrow> ubi_pmap list \<Rightarrow> bool" for ubi where
  init: "reachable ubi (ubi_pmap_init ubi)"
| allocate: "reachable ubi pm \<Longrightarrow>
     ubi_pmap_allocate_vol_pebs ubi pm vol peb leb blocks bd = (err, pm') \<Longrightarrow> reachable ubi pm'"
| resize: "reachable ubi pm \<Longrightarrow>
     ubi_pmap_resize_volume ubi pm vol reserved_pebs = Some (err, pm') \<Longrightarrow> reachable ubi pm'"
| markbad: "reachable ubi pm \<Longrightarrow> 0 \<le> pnum \<Longrightarrow> pnum < peb_count ubi \<Longrightarrow>
     ubi_pmap_markbad_replace ubi pm pnum = (r, pm') \<Longrightarrow> reachable ubi pm'"

text \<open>Two shapes of a step: entries are only released (\<open>inuse\<close> cleared), or free
  entries are only taken.\<close>

definition only_released :: "ubi_pmap list \<Rightarrow> ubi_pmap list \<Rightarrow> bool" where
  "only_released pm pm' =
     (length pm' = length pm \<and>
      (\<forall>i<length pm. pm' ! i = pm ! i \<or> pm' ! i = (pm ! i)\<lparr>inuse := False\<rparr>))"

definition only_taken :: "ubi_pmap list \<Rightarrow> ubi_pmap list \<Rightarrow> bool" where
  "only_taken pm pm' =
     (length pm' = length pm \<and>
      (\<forall>i<length pm. pm' ! i = pm ! i \<or>
          (\<not> inuse (pm ! i) \<and> \<not> bad (pm ! i) \<and> inuse (pm' ! i) \<and> \<not> bad (pm' ! i))))"

text \<open>Closed forms of the clearing loop and of the allocating loop, entry by entry.\<close>

definition clear_all :: "ubi_pmap list \<Rightarrow> int \<Rightarrow> int \<Rightarrow> int \<Rightarrow> ubi_pmap list" where
  "clear_all pm vol p last_peb =
     map (\<lambda>i. if p \<le> int i \<and> int i \<le> last_peb \<and> vol_id (pm ! i) = vol then zero_pmap else pm ! i)
       [0..<length pm]"

definition allocate_all ::
  "ubi_pmap list \<Rightarrow> int \<Rightarrow> int \<Rightarrow> int \<Rightarrow> int \<Rightarrow> bool \<Rightarrow> int \<Rightarrow> ubi_pmap list" where
  "allocate_all pm vol peb leb blocks bd k =
     map (\<lambda>i. if peb + k \<le> int i \<and> int i < peb + blocks
              then \<lparr>vol_id = vol, lnum = leb + (int i - peb), inuse = \<not> bd, bad = bd\<rparr>
              else pm ! i) [0..<length pm]"

text \<open>No entry has \<open>bad\<close> and \<open>inuse\<close> both set.\<close>

definition flags_exclusive :: "ubi_pmap list \<Rightarrow> bool" where
  "flags_exclusive pm = (\<forall>e \<in> set pm. \<not> (bad e \<and> inuse e))"

subsection \<open>Notions for the shrinking loop\<close>


definition release_all ::
  "ubi_pmap list \<Rightarrow> int \<Rightarrow> int \<Rightarrow> int \<Rightarrow> int \<Rightarrow> int \<Rightarrow> ubi_pmap list" where
  "release_all pm vol first_peb last_peb lo hi =
     map (\<lambda>i. if first_peb \<le> int i \<and> int i \<le> last_peb \<and> peb_owned pm vol (int i) \<and>
                 lo \<le> lnum (pm ! i) \<and> lnum (pm ! i) < hi
              then (pm ! i)\<lparr>inuse := False\<rparr> else pm ! i) [0..<length pm]"



subsection \<open>Notions for the extraction of runs\<close>

text \<open>
  \<open>peb_in_area\<close>: the PEB lies in the reserved area of the volume.
  \<open>extractable\<close>: every entry that is not in use is all zero, every entry in use
  is not bad and lies in the reserved area of its volume, and the last PEB of
  the device is not in use. \<open>run_from pm b i\<close>: the entries from \<open>b\<close> up to, not
  including, \<open>i\<close> continue the run that starts at \<open>b\<close>. \<open>mask pm i\<close>: the map
  with the entries below \<open>i\<close> and zero entries from \<open>i\<close> on.
\<close>

definition peb_in_area :: "ubi_device \<Rightarrow> int \<Rightarrow> int \<Rightarrow> bool" where
  "peb_in_area ubi vol p =
     (let (first_peb, last_peb) = ubi_pmap_vol_reserved_area ubi vol in first_peb \<le> p \<and> p \<le> last_peb)"

definition extractable :: "ubi_device \<Rightarrow> ubi_pmap list \<Rightarrow> bool" where
  "extractable ubi pm =
     ((\<forall>i<length pm. if inuse (pm ! i)
                      then \<not> bad (pm ! i) \<and> peb_in_area ubi (vol_id (pm ! i)) (int i)
                      else pm ! i = zero_pmap) \<and>
      (pm \<noteq> [] \<longrightarrow> \<not> inuse (last pm)))"

definition run_from :: "ubi_pmap list \<Rightarrow> int \<Rightarrow> int \<Rightarrow> bool" where
  "run_from pm b i =
     (\<forall>k. b \<le> k \<and> k < i \<longrightarrow>
        inuse (pm ! nat k) \<and> vol_id (pm ! nat k) = vol_id (pm ! nat b) \<and>
        bad (pm ! nat k) = bad (pm ! nat b) \<and> lnum (pm ! nat k) = lnum (pm ! nat b) + k - b)"

definition mask :: "ubi_pmap list \<Rightarrow> int \<Rightarrow> ubi_pmap list" where
  "mask pm i = map (\<lambda>k. if int k < i then pm ! k else zero_pmap) [0..<length pm]"

subsection \<open>Notions for the layout volume\<close>

text \<open>
  \<open>read_table env fl c\<close> is copy \<open>c\<close> as a read finds it: the volume table image
  and the PEB table image in the pair of LEBs of the copy. \<open>table_valid\<close>: the
  copy passes \<^verbatim>\<open>vtbl_check\<close>. \<open>io_ok\<close>: unmapping and writing the four LEBs of
  the two copies succeeds. The rest are example environments and flash
  contents: \<open>env_ok\<close> has no failure and accepts exactly the images \<open>[1]\<close> and
  \<open>[2]\<close>; \<open>env_lost\<close> rejects every image with a CRC failure; \<open>flash_same\<close> holds
  two identical valid copies.
\<close>

declare read_copies.simps [simp del] create_empty_copies.simps [simp del]

definition read_table :: "io_env \<Rightarrow> lvol_flash \<Rightarrow> int \<Rightarrow> image \<times> image" where
  "read_table env fl copy =
     (snd (ubi_eba_read_leb env fl (copy * UBI_LAYOUT_VOLUME_EBS_PER_COPY)),
      snd (ubi_eba_read_leb env fl (copy * UBI_LAYOUT_VOLUME_EBS_PER_COPY + 1)))"

definition table_valid :: "io_env \<Rightarrow> image \<times> image \<Rightarrow> bool" where
  "table_valid env t = (vtbl_check env (fst t) (snd t) = 0)"

definition io_ok :: "io_env \<Rightarrow> bool" where
  "io_ok env = (\<forall>l \<in> {0, 1, 2, 3}. unmap_err env l = 0 \<and> write_err env l = 0)"

definition env_ok :: io_env where
  "env_ok = \<lparr>vmalloc_vtbl_ok = (\<lambda>i. True), vmalloc_ptbl_ok = (\<lambda>i. True),
     read_err = (\<lambda>l. 0), read_garbage = (\<lambda>l. []),
     unmap_err = (\<lambda>l. 0), write_err = (\<lambda>l. 0), erased = [], torn_write = (\<lambda>l. []),
     vtbl_check = (\<lambda>v p. if v = [1] \<and> p = [2] then 0 else 1),
     init_layout_volume = 0, empty_lvol_tables = Some ([0], [0]),
     init_volumes = (\<lambda>v p. 0), check_volume_pmap = (\<lambda>v p. 0)\<rparr>"

definition flash_same :: lvol_flash where
  "flash_same = \<lparr>lebs = (\<lambda>l. if l = 0 \<or> l = 2 then [1] else if l = 1 \<or> l = 3 then [2] else []),
     io_log = []\<rparr>"

definition flash_lost :: lvol_flash where
  "flash_lost = \<lparr>lebs = (\<lambda>l. [7]), io_log = []\<rparr>"

definition env_lost :: io_env where
  "env_lost = env_ok\<lparr>vtbl_check := (\<lambda>v p. 1)\<rparr>"

section \<open>Properties of the PEB map\<close>

subsection \<open>Marking a PEB bad and replacing it\<close>

lemma reserved_area_bounds:
  assumes "wf_pmap ubi pm" "ubi_pmap_vol_reserved_area ubi vol = (first_peb, last_peb)"
  shows "0 \<le> first_peb" "last_peb < int (length pm)"
  using assms by (auto simp: wf_pmap_def ubi_pmap_vol_reserved_area_def split: if_splits)

lemma markbad_search_none:
  "(\<And>j. p \<le> j \<Longrightarrow> j \<le> last_peb \<Longrightarrow> \<not> peb_free pm j) \<Longrightarrow>
   markbad_search_loop pm vol leb last_peb p = (- ENOMEM, pm)"
proof (induction pm vol leb last_peb p rule: markbad_search_loop.induct)
  case (1 pm vol leb last_peb p)
  show ?case
  proof (cases "p \<le> last_peb")
    case True
    then have nf: "\<not> peb_free pm p" using "1.prems" by simp
    then have "markbad_search_loop pm vol leb last_peb p =
               markbad_search_loop pm vol leb last_peb (p + 1)"
      using True by (subst markbad_search_loop.simps) (auto simp: peb_free_def Let_def)
    also have "\<dots> = (- ENOMEM, pm)"
      using True nf "1.prems" by (intro "1.IH") (auto simp: peb_free_def)
    finally show ?thesis .
  next
    case False
    then show ?thesis by (subst markbad_search_loop.simps) simp
  qed
qed

lemma markbad_search_found:
  "p \<le> r \<Longrightarrow> r \<le> last_peb \<Longrightarrow> peb_free pm r \<Longrightarrow>
   (\<And>j. p \<le> j \<Longrightarrow> j < r \<Longrightarrow> \<not> peb_free pm j) \<Longrightarrow>
   markbad_search_loop pm vol leb last_peb p =
     (r, pm[nat r := (pm ! nat r)\<lparr>inuse := True, vol_id := vol, lnum := leb\<rparr>])"
proof (induction pm vol leb last_peb p rule: markbad_search_loop.induct)
  case (1 pm vol leb last_peb p)
  show ?case
  proof (cases "p = r")
    case True
    then show ?thesis
      using "1.prems" by (subst markbad_search_loop.simps) (simp add: peb_free_def)
  next
    case False
    then have lt: "p < r" using "1.prems" by simp
    then have nf: "\<not> peb_free pm p" using "1.prems" by simp
    have "markbad_search_loop pm vol leb last_peb p =
          markbad_search_loop pm vol leb last_peb (p + 1)"
      using lt "1.prems"(2) nf by (subst markbad_search_loop.simps) (auto simp: peb_free_def Let_def)
    also have "\<dots> = (r, pm[nat r := (pm ! nat r)\<lparr>inuse := True, vol_id := vol, lnum := leb\<rparr>])"
      using lt "1.prems" nf by (intro "1.IH") (auto simp: peb_free_def)
    finally show ?thesis .
  qed
qed

text \<open>The lowest free PEB of a range, when there is one.\<close>

lemma lowest_free_exists:
  assumes "first_peb \<le> j" "j \<le> last_peb" "peb_free pm j"
  shows "\<exists>r. first_peb \<le> r \<and> r \<le> last_peb \<and> peb_free pm r \<and>
             (\<forall>k. first_peb \<le> k \<and> k < r \<longrightarrow> \<not> peb_free pm k)"
  using assms
proof (induction "nat (j - first_peb)" arbitrary: j rule: less_induct)
  case less
  show ?case
  proof (cases "\<exists>k. first_peb \<le> k \<and> k < j \<and> peb_free pm k")
    case True
    then obtain k where k: "first_peb \<le> k" "k < j" "peb_free pm k" by blast
    have "nat (k - first_peb) < nat (j - first_peb)" using k by linarith
    moreover have "k \<le> last_peb" using k less.prems by linarith
    ultimately show ?thesis using less.hyps k by blast
  next
    case False
    then show ?thesis using less.prems by blast
  qed
qed

lemma markbad_replace_unfold:
  "ubi_pmap_markbad_replace ubi pm pnum =
     (if inuse (pm ! nat pnum) \<and> \<not> bad (pm ! nat pnum)
      then markbad_search_loop (pm[nat pnum := (pm ! nat pnum)\<lparr>bad := True, inuse := False\<rparr>])
             (vol_id (pm ! nat pnum)) (lnum (pm ! nat pnum))
             (snd (ubi_pmap_vol_reserved_area ubi (vol_id (pm ! nat pnum))))
             (fst (ubi_pmap_vol_reserved_area ubi (vol_id (pm ! nat pnum))))
      else (pnum, pm[nat pnum := (pm ! nat pnum)\<lparr>bad := True, inuse := False\<rparr>]))"
  unfolding ubi_pmap_markbad_replace_def Let_def
  by (cases "ubi_pmap_vol_reserved_area ubi (vol_id (pm ! nat pnum))") simp

text \<open>
  Claim C5. \<^verbatim>\<open>ubi_pmap_markbad_replace(pnum)\<close> always leaves the entry at \<open>pnum\<close>
  with \<open>bad\<close> set and \<open>inuse\<close> clear. If the entry was in use and not bad, the
  lowest free, non-bad PEB of the reserved area of the entry's volume takes
  over its \<open>vol_id\<close> and \<open>lnum\<close>, is put in use, and its index is returned; if
  the area has no such PEB the result is \<open>-ENOMEM\<close>, a negative value. In every
  other case (in particular when the entry was not in use) \<open>pnum\<close> is returned
  and nothing but the entry at \<open>pnum\<close> changes.
\<close>

theorem markbad_replace_spec:
  assumes wf: "wf_pmap ubi pm"
    and rng: "0 \<le> pnum" "pnum < peb_count ubi"
    and area: "ubi_pmap_vol_reserved_area ubi (vol_id (pm ! nat pnum)) = (first_peb, last_peb)"
    and res: "ubi_pmap_markbad_replace ubi pm pnum = (r, pm')"
  shows "bad (pm' ! nat pnum) \<and> \<not> inuse (pm' ! nat pnum) \<and>
    (if inuse (pm ! nat pnum) \<and> \<not> bad (pm ! nat pnum) then
       (if \<exists>j. first_peb \<le> j \<and> j \<le> last_peb \<and> peb_free pm j then
          first_peb \<le> r \<and> r \<le> last_peb \<and> peb_free pm r \<and>
          (\<forall>j. first_peb \<le> j \<and> j < r \<longrightarrow> \<not> peb_free pm j) \<and>
          pm' = pm[nat pnum := (pm ! nat pnum)\<lparr>bad := True, inuse := False\<rparr>,
                   nat r := \<lparr>vol_id = vol_id (pm ! nat pnum), lnum = lnum (pm ! nat pnum),
                             inuse = True, bad = False\<rparr>]
        else r = - ENOMEM \<and> r < 0 \<and>
             pm' = pm[nat pnum := (pm ! nat pnum)\<lparr>bad := True, inuse := False\<rparr>])
     else r = pnum \<and> pm' = pm[nat pnum := (pm ! nat pnum)\<lparr>bad := True, inuse := False\<rparr>])"
proof -
  let ?e = "pm ! nat pnum"
  let ?pm1 = "pm[nat pnum := ?e\<lparr>bad := True, inuse := False\<rparr>]"
  have len: "nat pnum < length pm" using wf rng unfolding wf_pmap_def by linarith
  have b: "0 \<le> first_peb" "last_peb < int (length pm)"
    using reserved_area_bounds[OF wf area] .
  have free1: "peb_free ?pm1 j = (peb_free pm j \<and> j \<noteq> pnum)" if "0 \<le> j" for j
  proof (cases "j = pnum")
    case True
    then show ?thesis using len by (simp add: peb_free_def)
  next
    case False
    then have "nat j \<noteq> nat pnum" using that rng by simp
    then show ?thesis using False by (simp add: peb_free_def)
  qed
  have marked: "bad (?pm1 ! nat pnum) \<and> \<not> inuse (?pm1 ! nat pnum)" using len by simp
  show ?thesis
  proof (cases "inuse ?e \<and> \<not> bad ?e")
    case False
    have "ubi_pmap_markbad_replace ubi pm pnum = (pnum, ?pm1)"
      using False by (subst markbad_replace_unfold) auto
    with res have "r = pnum" "pm' = ?pm1" by auto
    with marked show ?thesis unfolding if_not_P[OF False] by simp
  next
    case True
    then have nfp: "\<not> peb_free pm pnum" by (simp add: peb_free_def)
    have eq: "ubi_pmap_markbad_replace ubi pm pnum =
              markbad_search_loop ?pm1 (vol_id ?e) (lnum ?e) last_peb first_peb"
      using True area by (subst markbad_replace_unfold) simp
    show ?thesis
    proof (cases "\<exists>j. first_peb \<le> j \<and> j \<le> last_peb \<and> peb_free pm j")
      case ex: True
      then obtain r0 where r0: "first_peb \<le> r0" "r0 \<le> last_peb" "peb_free pm r0"
        "\<forall>k. first_peb \<le> k \<and> k < r0 \<longrightarrow> \<not> peb_free pm k"
        using lowest_free_exists by blast
      have ne: "r0 \<noteq> pnum" using r0(3) nfp by auto
      have r0pos: "0 \<le> r0" using r0(1) b(1) by simp
      have nn: "nat r0 \<noteq> nat pnum" using ne r0pos rng by simp
      have r0len: "nat r0 < length pm" using r0(2) b(2) r0pos by linarith
      have "markbad_search_loop ?pm1 (vol_id ?e) (lnum ?e) last_peb first_peb =
            (r0, ?pm1[nat r0 := (?pm1 ! nat r0)\<lparr>inuse := True, vol_id := vol_id ?e, lnum := lnum ?e\<rparr>])"
      proof (rule markbad_search_found)
        show "first_peb \<le> r0" "r0 \<le> last_peb" by (rule r0)+
        show "peb_free ?pm1 r0" using free1[OF r0pos] r0(3) ne by simp
        fix j assume j: "first_peb \<le> j" "j < r0"
        then have "0 \<le> j" using b(1) by simp
        from free1[OF this] r0(4) j show "\<not> peb_free ?pm1 j" by simp
      qed
      with eq res have r: "r = r0"
        and pm': "pm' = ?pm1[nat r0 := (?pm1 ! nat r0)\<lparr>inuse := True, vol_id := vol_id ?e, lnum := lnum ?e\<rparr>]"
        by auto
      have ent: "(?pm1 ! nat r0)\<lparr>inuse := True, vol_id := vol_id ?e, lnum := lnum ?e\<rparr> =
                 \<lparr>vol_id = vol_id ?e, lnum = lnum ?e, inuse = True, bad = False\<rparr>"
        using nn r0(3) by (simp add: peb_free_def)
      have m2: "bad (pm' ! nat pnum) \<and> \<not> inuse (pm' ! nat pnum)"
        unfolding pm' using nn len by simp
      have pm'': "pm' = pm[nat pnum := ?e\<lparr>bad := True, inuse := False\<rparr>,
                   nat r := \<lparr>vol_id = vol_id ?e, lnum = lnum ?e, inuse = True, bad = False\<rparr>]"
        unfolding pm' ent r ..
      show ?thesis unfolding if_P[OF True] if_P[OF ex] using m2 pm'' r0 unfolding r by simp
    next
      case nex: False
      have "markbad_search_loop ?pm1 (vol_id ?e) (lnum ?e) last_peb first_peb = (- ENOMEM, ?pm1)"
      proof (rule markbad_search_none)
        fix j assume j: "first_peb \<le> j" "j \<le> last_peb"
        then have "0 \<le> j" using b(1) by simp
        from free1[OF this] nex j show "\<not> peb_free ?pm1 j" by simp
      qed
      with eq res have "r = - ENOMEM" "pm' = ?pm1" by auto
      with marked show ?thesis unfolding if_P[OF True] if_not_P[OF nex] by (simp add: ENOMEM_def)
    qed
  qed
qed

theorem markbad_replace_spec_witness:
  "wf_pmap dev4 [zero_pmap, used 5 0, used 5 1, zero_pmap] \<and>
   ubi_pmap_markbad_replace dev4 [zero_pmap, used 5 0, used 5 1, zero_pmap] 1 =
     (3, [zero_pmap, marked_bad 5 0, used 5 1, used 5 0])"
proof -
  let ?pm = "[zero_pmap, used 5 0, used 5 1, zero_pmap]"
  obtain r pm' where res: "ubi_pmap_markbad_replace dev4 ?pm 1 = (r, pm')"
    by (cases "ubi_pmap_markbad_replace dev4 ?pm 1")
  have wf: "wf_pmap dev4 ?pm" by (simp add: wf_pmap_def dev4_def)
  have area: "ubi_pmap_vol_reserved_area dev4 (vol_id (?pm ! nat 1)) = (1, 3)"
    by (simp add: ubi_pmap_vol_reserved_area_def dev4_def used_def)
  have fr: "\<exists>j. (1::int) \<le> j \<and> j \<le> 3 \<and> peb_free ?pm j"
    by (rule exI[of _ 3]) (simp add: peb_free_def zero_pmap_def)
  have iu: "inuse (?pm ! nat 1) \<and> \<not> bad (?pm ! nat 1)" by (simp add: used_def)
  have nf: "\<not> peb_free ?pm 1" "\<not> peb_free ?pm 2"
    by (simp_all add: peb_free_def used_def)
  from markbad_replace_spec[OF wf _ _ area res] iu fr
  have *: "1 \<le> r \<and> r \<le> 3 \<and> peb_free ?pm r \<and>
      pm' = ?pm[nat 1 := (?pm ! nat 1)\<lparr>bad := True, inuse := False\<rparr>,
                nat r := \<lparr>vol_id = vol_id (?pm ! nat 1), lnum = lnum (?pm ! nat 1),
                          inuse = True, bad = False\<rparr>]"
    by (simp add: dev4_def)
  then have "r = 1 \<or> r = 2 \<or> r = 3" by auto
  with * nf have r: "r = 3" by auto
  with * have "pm' = [zero_pmap, marked_bad 5 0, used 5 1, used 5 0]"
    by (simp add: used_def marked_bad_def)
  with res r wf show ?thesis by simp
qed

subsection \<open>Growing a volume\<close>

lemma free_pebs_empty: "last_peb < p \<Longrightarrow> free_pebs pm p last_peb = []"
  by (simp add: free_pebs_def)

lemma free_pebs_step:
  "p \<le> last_peb \<Longrightarrow>
   free_pebs pm p last_peb =
     (if peb_free pm p then p # free_pebs pm (p + 1) last_peb else free_pebs pm (p + 1) last_peb)"
  by (simp add: free_pebs_def upto_rec1)

lemma peb_free_update_other:
  "0 \<le> p \<Longrightarrow> p < q \<Longrightarrow> peb_free (pm[nat p := e]) q = peb_free pm q"
  by (simp add: peb_free_def)

lemma free_pebs_update_before:
  "0 \<le> p \<Longrightarrow> p < q \<Longrightarrow> free_pebs (pm[nat p := e]) q last_peb = free_pebs pm q last_peb"
  unfolding free_pebs_def
  by (rule filter_cong) (auto simp: peb_free_update_other)

lemma grow_all_nth:
  "i < length pm \<Longrightarrow>
   grow_all pm vol ln p last_peb ! i =
     (if p \<le> int i \<and> int i \<le> last_peb \<and> peb_free pm (int i)
      then \<lparr>vol_id = vol, lnum = ln + int (length (free_pebs pm p (int i - 1))),
            inuse = True, bad = False\<rparr>
      else pm ! i)"
  by (simp add: grow_all_def)

lemma length_grow_all [simp]: "length (grow_all pm vol ln p last_peb) = length pm"
  by (simp add: grow_all_def)

lemma grow_all_done: "last_peb < p \<Longrightarrow> grow_all pm vol ln p last_peb = pm"
  by (rule nth_equalityI) (auto simp: grow_all_nth)

lemma grow_all_skip:
  assumes "\<not> peb_free pm p"
  shows "grow_all pm vol ln (p + 1) last_peb = grow_all pm vol ln p last_peb"
proof (rule nth_equalityI)
  fix i assume "i < length (grow_all pm vol ln (p + 1) last_peb)"
  then have i: "i < length pm" by simp
  show "grow_all pm vol ln (p + 1) last_peb ! i = grow_all pm vol ln p last_peb ! i"
  proof (cases "p < int i")
    case True
    then have "free_pebs pm p (int i - 1) = free_pebs pm (p + 1) (int i - 1)"
      using assms by (simp add: free_pebs_step)
    with True i show ?thesis by (simp add: grow_all_nth)
  next
    case False
    then show ?thesis using i assms by (cases "int i = p") (simp_all add: grow_all_nth)
  qed
qed simp

lemma grow_all_take:
  assumes p0: "0 \<le> p" and fr: "peb_free pm p" and inr: "p \<le> last_peb" "last_peb < int (length pm)"
  shows "grow_all (pm[nat p := (pm ! nat p)\<lparr>inuse := True, vol_id := vol, lnum := ln\<rparr>])
           vol (ln + 1) (p + 1) last_peb = grow_all pm vol ln p last_peb" (is "grow_all ?pm1 _ _ _ _ = _")
proof (rule nth_equalityI)
    fix i assume "i < length (grow_all ?pm1 vol (ln + 1) (p + 1) last_peb)"
    then have i: "i < length pm" by simp
    consider "int i < p" | "int i = p" | "p < int i" by linarith
    then show "grow_all ?pm1 vol (ln + 1) (p + 1) last_peb ! i = grow_all pm vol ln p last_peb ! i"
    proof cases
      case 1
      then have "i \<noteq> nat p" by linarith
      with 1 i show ?thesis by (simp add: grow_all_nth)
    next
      case 2
      then have ip: "i = nat p" by simp
      have "free_pebs pm p (p - 1) = []" by (simp add: free_pebs_empty)
      with 2 ip i fr inr show ?thesis by (simp add: grow_all_nth peb_free_def)
    next
      case 3
      then have ne: "i \<noteq> nat p" using p0 by linarith
      have f1: "peb_free ?pm1 (int i) = peb_free pm (int i)"
        using peb_free_update_other[OF p0 3] .
      have f2: "free_pebs ?pm1 (p + 1) (int i - 1) = free_pebs pm (p + 1) (int i - 1)"
        using p0 by (intro free_pebs_update_before) simp_all
      have f3: "free_pebs pm p (int i - 1) = p # free_pebs pm (p + 1) (int i - 1)"
        using 3 fr by (simp add: free_pebs_step)
      from 3 i ne show ?thesis by (simp add: grow_all_nth f1 f2 f3)
    qed
qed simp

lemma grow_insufficient:
  "0 \<le> p \<Longrightarrow> last_peb < int (length pm) \<Longrightarrow>
   ln + int (length (free_pebs pm p last_peb)) < n \<Longrightarrow>
   resize_grow_loop pm vol n last_peb p ln =
     (grow_all pm vol ln p last_peb, ln + int (length (free_pebs pm p last_peb)))"
proof (induction pm vol n last_peb p ln rule: resize_grow_loop.induct)
  case (1 pm vol n last_peb p ln)
  show ?case
  proof (cases "p \<le> last_peb")
    case False
    then show ?thesis
      by (subst resize_grow_loop.simps) (simp add: free_pebs_empty grow_all_done)
  next
    case inr: True
    show ?thesis
    proof (cases "peb_free pm p")
      case fr: True
      let ?pm1 = "pm[nat p := (pm ! nat p)\<lparr>inuse := True, vol_id := vol, lnum := ln\<rparr>]"
      have fp: "free_pebs pm p last_peb = p # free_pebs pm (p + 1) last_peb"
        using inr fr by (simp add: free_pebs_step)
      have f2: "free_pebs ?pm1 (p + 1) last_peb = free_pebs pm (p + 1) last_peb"
        using "1.prems"(1) by (intro free_pebs_update_before) simp_all
      have ne: "ln + 1 \<noteq> n" using "1.prems"(3) fp by simp
      have "resize_grow_loop pm vol n last_peb p ln =
            resize_grow_loop ?pm1 vol n last_peb (p + 1) (ln + 1)"
        using inr fr ne by (subst resize_grow_loop.simps) (simp add: peb_free_def Let_def)
      also have "\<dots> = (grow_all ?pm1 vol (ln + 1) (p + 1) last_peb,
                         ln + 1 + int (length (free_pebs ?pm1 (p + 1) last_peb)))"
        using inr fr ne "1.prems" fp f2
        by (intro "1.IH"(1)[OF inr refl _ refl refl]) (simp_all add: peb_free_def)
      also have "\<dots> = (grow_all pm vol ln p last_peb, ln + int (length (free_pebs pm p last_peb)))"
        using grow_all_take[OF "1.prems"(1) fr inr "1.prems"(2)] fp f2 by simp
      finally show ?thesis .
    next
      case nf: False
      have fp: "free_pebs pm p last_peb = free_pebs pm (p + 1) last_peb"
        using inr nf by (simp add: free_pebs_step)
      have "resize_grow_loop pm vol n last_peb p ln =
            resize_grow_loop pm vol n last_peb (p + 1) ln"
        using inr nf by (subst resize_grow_loop.simps) (auto simp: peb_free_def Let_def)
      also have "\<dots> = (grow_all pm vol ln (p + 1) last_peb,
                         ln + int (length (free_pebs pm (p + 1) last_peb)))"
        using inr nf "1.prems" fp
        by (intro "1.IH"(2)[OF inr refl]) (simp_all add: peb_free_def)
      also have "\<dots> = (grow_all pm vol ln p last_peb, ln + int (length (free_pebs pm p last_peb)))"
        using grow_all_skip[OF nf] fp by simp
      finally show ?thesis .
    qed
  qed
qed

lemma vol_peb_count_loop_eq:
  "vol_peb_count_loop pm vol last_peb p ln = ln + int (length (vol_pebs pm vol p last_peb))"
proof (induction pm vol last_peb p ln rule: vol_peb_count_loop.induct)
  case (1 pm vol last_peb p ln)
  show ?case
  proof (cases "p \<le> last_peb")
    case True
    then have "vol_pebs pm vol p last_peb =
          (if peb_owned pm vol p then p # vol_pebs pm vol (p + 1) last_peb
           else vol_pebs pm vol (p + 1) last_peb)"
      by (simp add: vol_pebs_def upto_rec1)
    with True "1.IH"[OF True refl] show ?thesis
      by (subst vol_peb_count_loop.simps) (simp add: peb_owned_def Let_def)
  next
    case False
    then show ?thesis
      by (subst vol_peb_count_loop.simps) (simp add: vol_pebs_def)
  qed
qed

lemma resize_count_loop_eq:
  "resize_count_loop pm vol last_peb p ln = ln + int (length (vol_pebs pm vol p last_peb))"
proof (induction pm vol last_peb p ln rule: resize_count_loop.induct)
  case (1 pm vol last_peb p ln)
  show ?case
  proof (cases "p \<le> last_peb")
    case True
    then have "vol_pebs pm vol p last_peb =
          (if peb_owned pm vol p then p # vol_pebs pm vol (p + 1) last_peb
           else vol_pebs pm vol (p + 1) last_peb)"
      by (simp add: vol_pebs_def upto_rec1)
    with True "1.IH"[OF True refl] show ?thesis
      by (subst resize_count_loop.simps) (simp add: peb_owned_def Let_def)
  next
    case False
    then show ?thesis
      by (subst resize_count_loop.simps) (simp add: vol_pebs_def)
  qed
qed

lemma vol_peb_count_eq:
  "ubi_pmap_vol_reserved_area ubi vol = (first_peb, last_peb) \<Longrightarrow>
   ubi_pmap_vol_peb_count ubi pm vol = int (length (vol_pebs pm vol first_peb last_peb))"
  by (simp add: ubi_pmap_vol_peb_count_def vol_peb_count_loop_eq)

text \<open>
  Claim C7, as the code has it. When the volume's current PEBs and all the free
  PEBs of its reserved area together are fewer than the requested size,
  \<^verbatim>\<open>ubi_pmap_resize_volume\<close> takes every free PEB of the area, in ascending order
  and with consecutive logical numbers, keeps them (nothing is rolled back),
  changes no other entry, and returns 0.
\<close>

theorem resize_grow_partial:
  assumes wf: "wf_pmap ubi pm"
    and area: "ubi_pmap_vol_reserved_area ubi vol = (first_peb, last_peb)"
    and short: "ubi_pmap_vol_peb_count ubi pm vol + int (length (free_pebs pm first_peb last_peb)) < n"
  shows "\<exists>pm'. ubi_pmap_resize_volume ubi pm vol n = Some (0, pm') \<and>
     length pm' = length pm \<and>
     (\<forall>q. first_peb \<le> q \<and> q \<le> last_peb \<and> peb_free pm q \<longrightarrow>
          pm' ! nat q = \<lparr>vol_id = vol,
                          lnum = ubi_pmap_vol_peb_count ubi pm vol +
                                 int (length (free_pebs pm first_peb (q - 1))),
                          inuse = True, bad = False\<rparr>) \<and>
     (\<forall>q. 0 \<le> q \<and> q < peb_count ubi \<and> \<not> (first_peb \<le> q \<and> q \<le> last_peb \<and> peb_free pm q) \<longrightarrow>
          pm' ! nat q = pm ! nat q)"
proof -
  let ?c = "ubi_pmap_vol_peb_count ubi pm vol"
  let ?pm' = "grow_all pm vol ?c first_peb last_peb"
  have b: "0 \<le> first_peb" "last_peb < int (length pm)"
    using reserved_area_bounds[OF wf area] .
  have len: "int (length pm) = peb_count ubi" using wf by (simp add: wf_pmap_def)
  have c: "resize_count_loop pm vol last_peb first_peb 0 = ?c"
    by (simp add: resize_count_loop_eq vol_peb_count_eq[OF area])
  have c0: "0 \<le> ?c" by (simp add: vol_peb_count_eq[OF area])
  then have n0: "n \<noteq> 0" and lt: "?c < n" using short by simp_all
  have g: "resize_grow_loop pm vol n last_peb first_peb ?c =
           (?pm', ?c + int (length (free_pebs pm first_peb last_peb)))"
    using b short by (rule grow_insufficient)
  have res: "ubi_pmap_resize_volume ubi pm vol n = Some (0, ?pm')"
    using n0 lt short by (simp add: ubi_pmap_resize_volume_def area c g)
  have taken: "?pm' ! nat q = \<lparr>vol_id = vol, lnum = ?c + int (length (free_pebs pm first_peb (q - 1))),
                                 inuse = True, bad = False\<rparr>"
    if "first_peb \<le> q \<and> q \<le> last_peb \<and> peb_free pm q" for q
  proof -
    have "nat q < length pm" "int (nat q) = q" using that b by linarith+
    with that show ?thesis by (simp add: grow_all_nth)
  qed
  have kept: "?pm' ! nat q = pm ! nat q"
    if "0 \<le> q \<and> q < peb_count ubi \<and> \<not> (first_peb \<le> q \<and> q \<le> last_peb \<and> peb_free pm q)" for q
  proof -
    have "nat q < length pm" "int (nat q) = q" using that len by linarith+
    with that show ?thesis by (auto simp: grow_all_nth)
  qed
  from res taken kept show ?thesis by (intro exI[of _ ?pm']) simp
qed

theorem resize_grow_partial_witness:
  "wf_pmap dev4 (ubi_pmap_init dev4) \<and>
   ubi_pmap_vol_peb_count dev4 (ubi_pmap_init dev4) 5 +
     int (length (free_pebs (ubi_pmap_init dev4) 1 3)) < 10 \<and>
   ubi_pmap_resize_volume dev4 (ubi_pmap_init dev4) 5 10 =
     Some (0, [zero_pmap, used 5 0, used 5 1, used 5 2])"
proof -
  let ?pm = "ubi_pmap_init dev4"
  have wf: "wf_pmap dev4 ?pm" by (simp add: wf_pmap_def dev4_def ubi_pmap_init_def)
  have area: "ubi_pmap_vol_reserved_area dev4 5 = (1, 3)"
    by (simp add: ubi_pmap_vol_reserved_area_def dev4_def)
  have pm: "?pm = [zero_pmap, zero_pmap, zero_pmap, zero_pmap]"
    by (simp add: ubi_pmap_init_def dev4_def numeral_eq_Suc)
  have cnt: "ubi_pmap_vol_peb_count dev4 ?pm 5 = 0" by code_simp
  have fr: "free_pebs ?pm 1 3 = [1, 2, 3]" by code_simp
  have fr0: "free_pebs ?pm 1 (1 - 1) = []" "free_pebs ?pm 1 (2 - 1) = [1]"
    "free_pebs ?pm 1 (3 - 1) = [1, 2]" by code_simp+
  have free: "peb_free ?pm 1" "peb_free ?pm 2" "peb_free ?pm 3" by code_simp+
  have short: "ubi_pmap_vol_peb_count dev4 ?pm 5 + int (length (free_pebs ?pm 1 3)) < 10"
    by (simp add: cnt fr)
  from resize_grow_partial[OF wf area short] obtain pm' where
    r: "ubi_pmap_resize_volume dev4 ?pm 5 10 = Some (0, pm')" and l: "length pm' = length ?pm"
    and t: "\<forall>q. 1 \<le> q \<and> q \<le> 3 \<and> peb_free ?pm q \<longrightarrow>
          pm' ! nat q = \<lparr>vol_id = 5, lnum = ubi_pmap_vol_peb_count dev4 ?pm 5 +
                                 int (length (free_pebs ?pm 1 (q - 1))),
                          inuse = True, bad = False\<rparr>"
    and k: "\<forall>q. 0 \<le> q \<and> q < peb_count dev4 \<and> \<not> (1 \<le> q \<and> q \<le> 3 \<and> peb_free ?pm q) \<longrightarrow>
          pm' ! nat q = ?pm ! nat q"
    by blast
  have pc: "peb_count dev4 = 4" by (simp add: dev4_def)
  have e0: "pm' ! 0 = zero_pmap" using k[rule_format, of 0] by (simp add: pc pm)
  have e1: "pm' ! 1 = used 5 0" using t[rule_format, of 1] free fr0 by (simp add: cnt used_def)
  have e2: "pm' ! 2 = used 5 1" using t[rule_format, of 2] free fr0 by (simp add: cnt used_def)
  have e3: "pm' ! 3 = used 5 2" using t[rule_format, of 3] free fr0 by (simp add: cnt used_def)
  have "length pm' = 4" using l pm by simp
  then have "pm' = [pm' ! 0, pm' ! 1, pm' ! 2, pm' ! 3]"
    by (intro nth_equalityI) (auto simp: nth_Cons' numeral_eq_Suc less_Suc_eq)
  with e0 e1 e2 e3 have "pm' = [zero_pmap, used 5 0, used 5 1, used 5 2]" by simp
  with r wf short show ?thesis by simp
qed

text \<open>
  The return value does not tell a short growth from a full one: on the fresh
  example device, asking for 10 PEBs (3 are available) and asking for 3 give
  the same map and the same return value 0.
\<close>

theorem resize_grow_returns_zero:
  "ubi_pmap_resize_volume dev4 (ubi_pmap_init dev4) 5 10 =
     Some (0, [zero_pmap, used 5 0, used 5 1, used 5 2]) \<and>
   ubi_pmap_resize_volume dev4 (ubi_pmap_init dev4) 5 3 =
     Some (0, [zero_pmap, used 5 0, used 5 1, used 5 2])"
  by code_simp

subsection \<open>A shrinking loop that never leaves\<close>

lemma shrink_hole_stuck:
  "resize_shrink_loop pm vol n first_peb last_peb pnum ln = Some y \<Longrightarrow>
   \<not> (pm = pm_hole \<and> vol = 5 \<and> n = 1 \<and> first_peb = 1 \<and> last_peb = 3 \<and> ln = 2 \<and>
      pnum \<in> {1, 2, 3})"
proof (induction rule: resize_shrink_loop.raw_induct[rotated 1, consumes 1, case_names step])
  case (step shrink pm vol n first_peb last_peb pnum ln y)
  show ?case
  proof
    assume a: "pm = pm_hole \<and> vol = 5 \<and> n = 1 \<and> first_peb = 1 \<and> last_peb = 3 \<and> ln = 2 \<and>
      pnum \<in> {1, 2, 3}"
    then consider "pnum = 1" | "pnum = 2" | "pnum = 3" by auto
    then show False
    proof cases
      case 1
      with a step.hyps have "shrink pm_hole 5 1 1 3 3 2 = Some y"
        by (simp add: pm_hole_def used_def marked_bad_def zero_pmap_def)
      from step.IH[OF this] show False by simp
    next
      case 2
      with a step.hyps have "shrink pm_hole 5 1 1 3 1 2 = Some y"
        by (simp add: pm_hole_def used_def marked_bad_def zero_pmap_def)
      from step.IH[OF this] show False by simp
    next
      case 3
      with a step.hyps have "shrink pm_hole 5 1 1 3 2 2 = Some y"
        by (simp add: pm_hole_def used_def marked_bad_def zero_pmap_def)
      from step.IH[OF this] show False by simp
    qed
  qed
qed

text \<open>
  Claim C10 asks that \<^verbatim>\<open>ubi_pmap_resize_volume\<close> returns for every map. On the
  example device, create volume 5 with three PEBs, mark PEB 2 bad (no free PEB
  is left, so the result is \<open>-ENOMEM\<close> and logical block 1 has no PEB), then
  shrink the volume to one PEB: the count is 2, the loop looks for an in-use
  entry with \<open>lnum = 1\<close>, there is none, and the loop never leaves.
\<close>

theorem resize_never_returns:
  "ubi_pmap_resize_volume dev4 (ubi_pmap_init dev4) 5 3 =
     Some (0, [zero_pmap, used 5 0, used 5 1, used 5 2]) \<and>
   ubi_pmap_markbad_replace dev4 [zero_pmap, used 5 0, used 5 1, used 5 2] 2 = (- ENOMEM, pm_hole) \<and>
   ubi_pmap_resize_volume dev4 pm_hole 5 1 = None"
proof -
  have cnt: "resize_count_loop pm_hole 5 3 1 0 = 2" by code_simp
  have "resize_shrink_loop pm_hole 5 1 1 3 3 2 = None"
  proof (cases "resize_shrink_loop pm_hole 5 1 1 3 3 2")
    case (Some y)
    from shrink_hole_stuck[OF this] show ?thesis by simp
  qed simp
  then have hang: "ubi_pmap_resize_volume dev4 pm_hole 5 1 = None"
    by (simp add: ubi_pmap_resize_volume_def ubi_pmap_vol_reserved_area_def dev4_def cnt)
  have s1: "ubi_pmap_resize_volume dev4 (ubi_pmap_init dev4) 5 3 =
     Some (0, [zero_pmap, used 5 0, used 5 1, used 5 2])"
    by code_simp
  have s2: "ubi_pmap_markbad_replace dev4 [zero_pmap, used 5 0, used 5 1, used 5 2] 2 =
     (- ENOMEM, pm_hole)"
    by code_simp
  from s1 s2 hang show ?thesis by simp
qed

subsection \<open>Invariants of the reachable maps\<close>

lemma only_released_refl: "only_released pm pm"
  by (simp add: only_released_def)

lemma only_released_update:
  assumes "only_released (pm[k := (pm ! k)\<lparr>inuse := False\<rparr>]) pm'"
  shows "only_released pm pm'"
proof -
  let ?pm1 = "pm[k := (pm ! k)\<lparr>inuse := False\<rparr>]"
  have len: "length pm' = length pm" using assms by (simp add: only_released_def)
  have "pm' ! i = pm ! i \<or> pm' ! i = (pm ! i)\<lparr>inuse := False\<rparr>" if i: "i < length pm" for i
  proof -
    from assms i have d: "pm' ! i = ?pm1 ! i \<or> pm' ! i = (?pm1 ! i)\<lparr>inuse := False\<rparr>"
      by (simp add: only_released_def)
    show ?thesis
    proof (cases "i = k")
      case True
      with d i show ?thesis by auto
    next
      case False
      with d show ?thesis by simp
    qed
  qed
  with len show ?thesis by (simp add: only_released_def)
qed

lemma only_taken_refl: "only_taken pm pm"
  by (simp add: only_taken_def)

lemma only_taken_update:
  assumes t: "only_taken (pm[k := (pm ! k)\<lparr>inuse := True, vol_id := v, lnum := l\<rparr>]) pm'"
    and fr: "\<not> inuse (pm ! k)" "\<not> bad (pm ! k)"
  shows "only_taken pm pm'"
proof -
  let ?pm1 = "pm[k := (pm ! k)\<lparr>inuse := True, vol_id := v, lnum := l\<rparr>]"
  have len: "length pm' = length pm" using t by (simp add: only_taken_def)
  have "pm' ! i = pm ! i \<or>
        (\<not> inuse (pm ! i) \<and> \<not> bad (pm ! i) \<and> inuse (pm' ! i) \<and> \<not> bad (pm' ! i))"
    if i: "i < length pm" for i
  proof -
    from t i have d: "pm' ! i = ?pm1 ! i \<or>
        (\<not> inuse (?pm1 ! i) \<and> \<not> bad (?pm1 ! i) \<and> inuse (pm' ! i) \<and> \<not> bad (pm' ! i))"
      by (simp add: only_taken_def)
    show ?thesis
    proof (cases "i = k")
      case True
      with d i fr show ?thesis by auto
    next
      case False
      with d show ?thesis by simp
    qed
  qed
  with len show ?thesis by (simp add: only_taken_def)
qed

lemma shrink_only_released:
  assumes "resize_shrink_loop pm vol n first_peb last_peb pnum ln = Some pm'"
  shows "only_released pm pm'"
  using assms
proof (induction rule: resize_shrink_loop.raw_induct[rotated 1, consumes 1, case_names step])
  case (step shrink pm vol n first_peb last_peb pnum ln pm')
  let ?e = "pm ! nat pnum"
  let ?next = "if pnum - 1 < first_peb then last_peb else pnum - 1"
  show ?case
  proof (cases "vol_id ?e = vol \<and> lnum ?e = ln - 1 \<and> inuse ?e \<and> \<not> bad ?e")
    case hit: True
    show ?thesis
    proof (cases "ln - 1 = n")
      case True
      with hit step.hyps have "pm' = pm[nat pnum := ?e\<lparr>inuse := False\<rparr>]"
        by (simp add: Let_def)
      then show ?thesis using only_released_update[OF only_released_refl] by simp
    next
      case False
      with hit step.hyps have
        "shrink (pm[nat pnum := ?e\<lparr>inuse := False\<rparr>]) vol n first_peb last_peb ?next (ln - 1) = Some pm'"
        by (simp add: Let_def)
      from step.IH[OF this] show ?thesis by (rule only_released_update)
    qed
  next
    case False
    with step.hyps have "shrink pm vol n first_peb last_peb ?next ln = Some pm'"
      by (auto simp: Let_def)
    from step.IH[OF this] show ?thesis .
  qed
qed

lemma grow_only_taken:
  "resize_grow_loop pm vol n last_peb p ln = (pm', ln') \<Longrightarrow> only_taken pm pm'"
proof (induction pm vol n last_peb p ln rule: resize_grow_loop.induct)
  case (1 pm vol n last_peb p ln)
  let ?e = "pm ! nat p"
  let ?pm1 = "pm[nat p := ?e\<lparr>inuse := True, vol_id := vol, lnum := ln\<rparr>]"
  show ?case
  proof (cases "p \<le> last_peb")
    case False
    with "1.prems" have "pm' = pm" by (subst (asm) resize_grow_loop.simps) simp
    then show ?thesis by (simp add: only_taken_refl)
  next
    case inr: True
    show ?thesis
    proof (cases "\<not> inuse ?e \<and> \<not> bad ?e")
      case fr: True
      show ?thesis
      proof (cases "ln + 1 = n")
        case True
        with inr fr "1.prems" have "pm' = ?pm1"
          by (subst (asm) resize_grow_loop.simps) (simp add: Let_def)
        then show ?thesis using only_taken_update[OF only_taken_refl] fr by simp
      next
        case False
        with inr fr "1.prems" have "resize_grow_loop ?pm1 vol n last_peb (p + 1) (ln + 1) = (pm', ln')"
          by (subst (asm) resize_grow_loop.simps) (simp add: Let_def)
        from "1.IH"(1)[OF inr refl fr refl refl False this]
        have "only_taken ?pm1 pm'" .
        then show ?thesis by (rule only_taken_update) (use fr in simp_all)
      qed
    next
      case nf: False
      with inr "1.prems" have "resize_grow_loop pm vol n last_peb (p + 1) ln = (pm', ln')"
        by (subst (asm) resize_grow_loop.simps) (auto simp: Let_def)
      from "1.IH"(2)[OF inr refl nf this] show ?thesis .
    qed
  qed
qed

lemma grow_count_bound:
  "ln < n \<Longrightarrow> resize_grow_loop pm vol n last_peb p ln = (pm', ln') \<Longrightarrow> ln' \<le> n"
proof (induction pm vol n last_peb p ln rule: resize_grow_loop.induct)
  case (1 pm vol n last_peb p ln)
  let ?e = "pm ! nat p"
  let ?pm1 = "pm[nat p := ?e\<lparr>inuse := True, vol_id := vol, lnum := ln\<rparr>]"
  show ?case
  proof (cases "p \<le> last_peb")
    case False
    with "1.prems" have "ln' = ln" by (subst (asm) resize_grow_loop.simps) simp
    then show ?thesis using "1.prems" by simp
  next
    case inr: True
    show ?thesis
    proof (cases "\<not> inuse ?e \<and> \<not> bad ?e")
      case fr: True
      show ?thesis
      proof (cases "ln + 1 = n")
        case True
        with inr fr "1.prems" have "ln' = ln + 1"
          by (subst (asm) resize_grow_loop.simps) (simp add: Let_def)
        then show ?thesis using True by simp
      next
        case False
        with inr fr "1.prems" have "resize_grow_loop ?pm1 vol n last_peb (p + 1) (ln + 1) = (pm', ln')"
          by (subst (asm) resize_grow_loop.simps) (simp add: Let_def)
        moreover have "ln + 1 < n" using False "1.prems" by simp
        ultimately show ?thesis using "1.IH"(1)[OF inr refl fr refl refl False] by simp
      qed
    next
      case nf: False
      with inr "1.prems" have "resize_grow_loop pm vol n last_peb (p + 1) ln = (pm', ln')"
        by (subst (asm) resize_grow_loop.simps) (auto simp: Let_def)
      from "1.IH"(2)[OF inr refl nf "1.prems"(1) this] show ?thesis .
    qed
  qed
qed

lemma length_clear_all [simp]: "length (clear_all pm vol p last_peb) = length pm"
  by (simp add: clear_all_def)

lemma clear_all_nth:
  "i < length pm \<Longrightarrow> clear_all pm vol p last_peb ! i =
     (if p \<le> int i \<and> int i \<le> last_peb \<and> vol_id (pm ! i) = vol then zero_pmap else pm ! i)"
  by (simp add: clear_all_def)

lemma clear_all_done: "last_peb < p \<Longrightarrow> clear_all pm vol p last_peb = pm"
  by (rule nth_equalityI) (auto simp: clear_all_nth)

lemma clear_loop_eq:
  "0 \<le> p \<Longrightarrow> resize_clear_loop pm vol last_peb p = clear_all pm vol p last_peb"
proof (induction pm vol last_peb p rule: resize_clear_loop.induct)
  case (1 pm vol last_peb p)
  show ?case
  proof (cases "p \<le> last_peb")
    case False
    then show ?thesis by (subst resize_clear_loop.simps) (simp add: clear_all_done)
  next
    case True
    let ?pm1 = "if vol_id (pm ! nat p) = vol then pm[nat p := zero_pmap] else pm"
    have l1: "length ?pm1 = length pm" by simp
    have "resize_clear_loop pm vol last_peb p = resize_clear_loop ?pm1 vol last_peb (p + 1)"
      using True by (subst resize_clear_loop.simps) simp
    also have "\<dots> = clear_all ?pm1 vol (p + 1) last_peb"
      using "1.IH"[OF True] "1.prems" by simp
    also have "\<dots> = clear_all pm vol p last_peb"
    proof (rule nth_equalityI)
      show "length (clear_all ?pm1 vol (p + 1) last_peb) = length (clear_all pm vol p last_peb)"
        by (simp only: length_clear_all l1)
      fix i assume "i < length (clear_all ?pm1 vol (p + 1) last_peb)"
      then have i: "i < length pm" by (simp only: length_clear_all l1)
      then have i1: "i < length ?pm1" by (simp only: l1)
      show "clear_all ?pm1 vol (p + 1) last_peb ! i = clear_all pm vol p last_peb ! i"
      proof (cases "int i = p")
        case eq: True
        then have "i = nat p" by simp
        then have "?pm1 ! i = (if vol_id (pm ! i) = vol then zero_pmap else pm ! i)"
          using i by simp
        then show ?thesis
          unfolding clear_all_nth[OF i1] clear_all_nth[OF i] using eq True by simp
      next
        case ne: False
        then have "i \<noteq> nat p" using "1.prems" by linarith
        then have "?pm1 ! i = pm ! i" by simp
        then show ?thesis
          unfolding clear_all_nth[OF i1] clear_all_nth[OF i] using ne by auto
      qed
    qed
    finally show ?thesis .
  qed
qed

lemma length_allocate_all [simp]: "length (allocate_all pm vol peb leb blocks bd k) = length pm"
  by (simp add: allocate_all_def)

lemma allocate_all_nth:
  "i < length pm \<Longrightarrow> allocate_all pm vol peb leb blocks bd k ! i =
     (if peb + k \<le> int i \<and> int i < peb + blocks
      then \<lparr>vol_id = vol, lnum = leb + (int i - peb), inuse = \<not> bd, bad = bd\<rparr>
      else pm ! i)"
  by (simp add: allocate_all_def)

lemma allocate_all_done: "blocks \<le> k \<Longrightarrow> allocate_all pm vol peb leb blocks bd k = pm"
  by (rule nth_equalityI) (auto simp: allocate_all_nth)

lemma allocate_loop_eq:
  "0 \<le> peb + k \<Longrightarrow> peb + blocks \<le> int (length pm) \<Longrightarrow>
   allocate_loop pm vol peb leb blocks bd k = allocate_all pm vol peb leb blocks bd k"
proof (induction pm vol peb leb blocks bd k rule: allocate_loop.induct)
  case (1 pm vol peb leb blocks bd k)
  show ?case
  proof (cases "k < blocks")
    case False
    then show ?thesis by (subst allocate_loop.simps) (simp add: allocate_all_done)
  next
    case True
    let ?new = "\<lparr>vol_id = vol, lnum = leb + k, inuse = \<not> bd, bad = bd\<rparr>"
    let ?pm1 = "pm[nat (peb + k) := ?new]"
    have new: "(if \<not> bd then (pm ! nat (peb + k))\<lparr>vol_id := vol, lnum := leb + k\<rparr>\<lparr>inuse := True, bad := False\<rparr>
                else (pm ! nat (peb + k))\<lparr>vol_id := vol, lnum := leb + k\<rparr>\<lparr>inuse := False, bad := True\<rparr>) = ?new"
      by (cases "pm ! nat (peb + k)") simp
    have "allocate_loop pm vol peb leb blocks bd k = allocate_loop ?pm1 vol peb leb blocks bd (k + 1)"
      using True by (subst allocate_loop.simps) (simp only: Let_def new if_True)
    also have "\<dots> = allocate_all ?pm1 vol peb leb blocks bd (k + 1)"
      using "1.prems" True by (intro "1.IH"[OF True refl refl, unfolded new, OF refl]) simp_all
    also have "\<dots> = allocate_all pm vol peb leb blocks bd k"
    proof (rule nth_equalityI)
      fix i assume "i < length (allocate_all ?pm1 vol peb leb blocks bd (k + 1))"
      then have i: "i < length pm" by simp
      show "allocate_all ?pm1 vol peb leb blocks bd (k + 1) ! i = allocate_all pm vol peb leb blocks bd k ! i"
      proof (cases "int i = peb + k")
        case eq: True
        then have "i = nat (peb + k)" by simp
        with i have "?pm1 ! i = ?new" by simp
        moreover have "leb + (int i - peb) = leb + k" using eq by simp
        ultimately show ?thesis using eq True i by (simp add: allocate_all_nth)
      next
        case ne: False
        then have "i \<noteq> nat (peb + k)" using "1.prems" by linarith
        then have "?pm1 ! i = pm ! i" by simp
        then show ?thesis using ne i by (auto simp: allocate_all_nth)
      qed
    qed simp
    finally show ?thesis .
  qed
qed

lemma allocated_loop_eq:
  "allocated_loop pm vol peb blocks k =
     (\<exists>i. k \<le> i \<and> i < blocks \<and> vol_id (pm ! nat (peb + i)) = vol \<and> inuse (pm ! nat (peb + i)))"
proof (induction pm vol peb blocks k rule: allocated_loop.induct)
  case (1 pm vol peb blocks k)
  show ?case
  proof (cases "k < blocks")
    case False
    then show ?thesis by (subst allocated_loop.simps) auto
  next
    case True
    show ?thesis
    proof (cases "vol_id (pm ! nat (peb + k)) = vol \<and> inuse (pm ! nat (peb + k))")
      case hit: True
      then have "allocated_loop pm vol peb blocks k" using True
        by (subst allocated_loop.simps) (simp add: Let_def)
      then show ?thesis using hit True by auto
    next
      case miss: False
      then have "allocated_loop pm vol peb blocks k = allocated_loop pm vol peb blocks (k + 1)"
        using True by (subst allocated_loop.simps) (auto simp: Let_def)
      also have "\<dots> = (\<exists>i. k + 1 \<le> i \<and> i < blocks \<and> vol_id (pm ! nat (peb + i)) = vol \<and>
                          inuse (pm ! nat (peb + i)))"
        using "1.IH"[OF True refl miss] .
      also have "\<dots> = (\<exists>i. k \<le> i \<and> i < blocks \<and> vol_id (pm ! nat (peb + i)) = vol \<and>
                          inuse (pm ! nat (peb + i)))"
      proof
        assume "\<exists>i. k + 1 \<le> i \<and> i < blocks \<and> vol_id (pm ! nat (peb + i)) = vol \<and>
                   inuse (pm ! nat (peb + i))"
        then obtain i where "k + 1 \<le> i" "i < blocks" "vol_id (pm ! nat (peb + i)) = vol"
          "inuse (pm ! nat (peb + i))" by blast
        then show "\<exists>i. k \<le> i \<and> i < blocks \<and> vol_id (pm ! nat (peb + i)) = vol \<and>
                   inuse (pm ! nat (peb + i))" by (intro exI[of _ i]) simp
      next
        assume "\<exists>i. k \<le> i \<and> i < blocks \<and> vol_id (pm ! nat (peb + i)) = vol \<and>
                   inuse (pm ! nat (peb + i))"
        then obtain i where i: "k \<le> i" "i < blocks" "vol_id (pm ! nat (peb + i)) = vol"
          "inuse (pm ! nat (peb + i))" by blast
        then have "i \<noteq> k" using miss by auto
        with i show "\<exists>i. k + 1 \<le> i \<and> i < blocks \<and> vol_id (pm ! nat (peb + i)) = vol \<and>
                   inuse (pm ! nat (peb + i))" by (intro exI[of _ i]) simp
      qed
      finally show ?thesis .
    qed
  qed
qed

lemma markbad_search_cases:
  "markbad_search_loop pm vol leb last_peb p = (r, pm') \<Longrightarrow>
   (r = - ENOMEM \<and> pm' = pm) \<or>
   (p \<le> r \<and> r \<le> last_peb \<and> peb_free pm r \<and>
    pm' = pm[nat r := (pm ! nat r)\<lparr>inuse := True, vol_id := vol, lnum := leb\<rparr>])"
proof (induction pm vol leb last_peb p rule: markbad_search_loop.induct)
  case (1 pm vol leb last_peb p)
  show ?case
  proof (cases "p \<le> last_peb")
    case False
    with "1.prems" show ?thesis by (subst (asm) markbad_search_loop.simps) simp
  next
    case True
    show ?thesis
    proof (cases "peb_free pm p")
      case fr: True
      with True "1.prems" have "r = p"
        "pm' = pm[nat p := (pm ! nat p)\<lparr>inuse := True, vol_id := vol, lnum := leb\<rparr>]"
        by (subst (asm) markbad_search_loop.simps, simp add: peb_free_def Let_def)+
      with True fr show ?thesis by simp
    next
      case nf: False
      with True "1.prems" have "markbad_search_loop pm vol leb last_peb (p + 1) = (r, pm')"
        by (subst (asm) markbad_search_loop.simps) (auto simp: peb_free_def Let_def)
      from "1.IH"[OF True refl _ this] nf show ?thesis by (auto simp: peb_free_def)
    qed
  qed
qed

lemma flags_exclusive_nth:
  "flags_exclusive pm = (\<forall>i<length pm. \<not> (bad (pm ! i) \<and> inuse (pm ! i)))"
  by (simp add: flags_exclusive_def all_set_conv_all_nth)

lemma wf_pmap_init: "wf_dev ubi \<Longrightarrow> wf_pmap ubi (ubi_pmap_init ubi)"
  by (simp add: wf_dev_def wf_pmap_def ubi_pmap_init_def)

lemma flags_exclusive_init: "flags_exclusive (ubi_pmap_init ubi)"
  by (simp add: flags_exclusive_def ubi_pmap_init_def zero_pmap_def)

lemma flags_exclusive_update:
  assumes "flags_exclusive pm" "\<not> (bad e \<and> inuse e)"
  shows "flags_exclusive (pm[k := e])"
proof -
  have "set (pm[k := e]) \<subseteq> insert e (set pm)" by (rule set_update_subset_insert)
  with assms show ?thesis unfolding flags_exclusive_def by blast
qed

lemma only_taken_flags: "only_taken pm pm' \<Longrightarrow> flags_exclusive pm \<Longrightarrow> flags_exclusive pm'"
  unfolding only_taken_def flags_exclusive_nth by metis

lemma only_released_flags: "only_released pm pm' \<Longrightarrow> flags_exclusive pm \<Longrightarrow> flags_exclusive pm'"
  unfolding only_released_def flags_exclusive_nth
  by (metis ubi_pmap.select_convs(3) ubi_pmap.surjective ubi_pmap.update_convs(3))

lemma clear_all_flags: "flags_exclusive pm \<Longrightarrow> flags_exclusive (clear_all pm vol p last_peb)"
  unfolding flags_exclusive_nth by (simp add: clear_all_nth zero_pmap_def)

lemma allocate_all_flags:
  "flags_exclusive pm \<Longrightarrow> flags_exclusive (allocate_all pm vol peb leb blocks bd k)"
  unfolding flags_exclusive_nth by (simp add: allocate_all_nth)

lemma resize_cases:
  assumes wf: "wf_pmap ubi pm"
    and area: "ubi_pmap_vol_reserved_area ubi vol = (first_peb, last_peb)"
    and res: "ubi_pmap_resize_volume ubi pm vol n = Some (r, pm')"
  shows "r = 0 \<and> ((n = 0 \<and> pm' = clear_all pm vol first_peb last_peb) \<or>
                  (n \<noteq> 0 \<and> (only_taken pm pm' \<or> only_released pm pm')))"
proof (cases "n = 0")
  case True
  have "0 \<le> first_peb" using reserved_area_bounds[OF wf area] by simp
  then show ?thesis using res True by (simp add: ubi_pmap_resize_volume_def area clear_loop_eq)
next
  case n0: False
  let ?c = "resize_count_loop pm vol last_peb first_peb 0"
  show ?thesis
  proof (cases "?c < n")
    case True
    obtain pm1 ln1 where g: "resize_grow_loop pm vol n last_peb first_peb ?c = (pm1, ln1)"
      by (cases "resize_grow_loop pm vol n last_peb first_peb ?c")
    have "ln1 \<le> n" using grow_count_bound[OF True g] .
    with res n0 True g have "r = 0" "pm' = pm1"
      by (simp_all add: ubi_pmap_resize_volume_def area Let_def)
    with grow_only_taken[OF g] n0 show ?thesis by simp
  next
    case False
    show ?thesis
    proof (cases "?c > n")
      case True
      with res n0 False obtain "r = 0"
        and "resize_shrink_loop pm vol n first_peb last_peb last_peb ?c = Some pm'"
        by (auto simp: ubi_pmap_resize_volume_def area Let_def)
      with shrink_only_released n0 show ?thesis by blast
    next
      case eq: False
      with res n0 False have "r = 0" "pm' = pm"
        by (simp_all add: ubi_pmap_resize_volume_def area Let_def)
      with n0 show ?thesis by (simp add: only_taken_refl)
    qed
  qed
qed

lemma resize_wf_flags:
  assumes wf: "wf_pmap ubi pm" and res: "ubi_pmap_resize_volume ubi pm vol n = Some (r, pm')"
  shows "wf_pmap ubi pm' \<and> (flags_exclusive pm \<longrightarrow> flags_exclusive pm')"
proof -
  obtain first_peb last_peb where area: "ubi_pmap_vol_reserved_area ubi vol = (first_peb, last_peb)"
    by (cases "ubi_pmap_vol_reserved_area ubi vol")
  from resize_cases[OF wf area res]
  consider "pm' = clear_all pm vol first_peb last_peb" | "only_taken pm pm'" | "only_released pm pm'"
    by blast
  then show ?thesis
  proof cases
    case 1
    then show ?thesis using wf by (simp add: wf_pmap_def clear_all_flags)
  next
    case 2
    then show ?thesis using wf only_taken_flags by (auto simp: wf_pmap_def only_taken_def)
  next
    case 3
    then show ?thesis using wf only_released_flags by (auto simp: wf_pmap_def only_released_def)
  qed
qed

lemma allocate_wf_flags:
  assumes wf: "wf_pmap ubi pm"
    and res: "ubi_pmap_allocate_vol_pebs ubi pm vol peb leb blocks bd = (err, pm')"
  shows "wf_pmap ubi pm' \<and> (flags_exclusive pm \<longrightarrow> flags_exclusive pm')"
proof -
  obtain first_peb last_peb where area: "ubi_pmap_vol_reserved_area ubi vol = (first_peb, last_peb)"
    by (cases "ubi_pmap_vol_reserved_area ubi vol")
  have b: "0 \<le> first_peb" "last_peb < int (length pm)" using reserved_area_bounds[OF wf area] .
  show ?thesis
  proof (cases "peb < first_peb \<or> peb + blocks > last_peb + 1 \<or> allocated_loop pm vol peb blocks 0")
    case True
    with res have "pm' = pm" by (auto simp: ubi_pmap_allocate_vol_pebs_def area split: if_splits)
    with wf show ?thesis by simp
  next
    case False
    with res have "pm' = allocate_loop pm vol peb leb blocks bd 0"
      by (auto simp: ubi_pmap_allocate_vol_pebs_def area split: if_splits)
    also have "\<dots> = allocate_all pm vol peb leb blocks bd 0"
      using False b by (intro allocate_loop_eq) simp_all
    finally show ?thesis using wf by (simp add: wf_pmap_def allocate_all_flags)
  qed
qed

lemma markbad_wf_flags:
  assumes wf: "wf_pmap ubi pm" and rng: "0 \<le> pnum" "pnum < peb_count ubi"
    and res: "ubi_pmap_markbad_replace ubi pm pnum = (r, pm')"
  shows "wf_pmap ubi pm' \<and> (flags_exclusive pm \<longrightarrow> flags_exclusive pm')"
proof -
  let ?e = "pm ! nat pnum"
  let ?pm1 = "pm[nat pnum := ?e\<lparr>bad := True, inuse := False\<rparr>]"
  have f1: "flags_exclusive ?pm1" if "flags_exclusive pm"
    using that by (rule flags_exclusive_update) simp
  have "pm' = ?pm1 \<or> (\<exists>k v l. \<not> inuse (?pm1 ! k) \<and> \<not> bad (?pm1 ! k) \<and>
          pm' = ?pm1[k := (?pm1 ! k)\<lparr>inuse := True, vol_id := v, lnum := l\<rparr>])"
  proof (cases "inuse ?e \<and> \<not> bad ?e")
    case False
    with res show ?thesis by (subst (asm) markbad_replace_unfold) auto
  next
    case True
    with res have "markbad_search_loop ?pm1 (vol_id ?e) (lnum ?e)
        (snd (ubi_pmap_vol_reserved_area ubi (vol_id ?e)))
        (fst (ubi_pmap_vol_reserved_area ubi (vol_id ?e))) = (r, pm')"
      by (subst (asm) markbad_replace_unfold) simp
    from markbad_search_cases[OF this] show ?thesis unfolding peb_free_def by blast
  qed
  then show ?thesis
  proof
    assume "pm' = ?pm1"
    with wf f1 show ?thesis by (simp add: wf_pmap_def)
  next
    assume "\<exists>k v l. \<not> inuse (?pm1 ! k) \<and> \<not> bad (?pm1 ! k) \<and>
          pm' = ?pm1[k := (?pm1 ! k)\<lparr>inuse := True, vol_id := v, lnum := l\<rparr>]"
    then obtain k v l where k: "\<not> inuse (?pm1 ! k)" "\<not> bad (?pm1 ! k)"
      and pm': "pm' = ?pm1[k := (?pm1 ! k)\<lparr>inuse := True, vol_id := v, lnum := l\<rparr>]" by blast
    have "flags_exclusive pm'" if "flags_exclusive pm"
      unfolding pm' using f1[OF that] by (rule flags_exclusive_update) (use k in simp)
    with wf pm' show ?thesis by (simp add: wf_pmap_def)
  qed
qed

lemma reachable_wf_flags:
  assumes "wf_dev ubi" "reachable ubi pm"
  shows "wf_pmap ubi pm \<and> flags_exclusive pm"
  using assms(2)
proof (induction rule: reachable.induct)
  case init
  show ?case using wf_pmap_init[OF assms(1)] flags_exclusive_init by simp
next
  case (allocate pm vol peb leb blocks bd err pm')
  then show ?case using allocate_wf_flags by blast
next
  case (resize pm vol reserved_pebs err pm')
  then show ?case using resize_wf_flags by blast
next
  case (markbad pm pnum r pm')
  then show ?case using markbad_wf_flags by blast
qed

lemma lookup_pnum_loop_cases:
  "lookup_pnum_loop pm vol leb last_peb p = r \<Longrightarrow>
   r = - 1 \<or> (p \<le> r \<and> r \<le> last_peb \<and> vol_id (pm ! nat r) = vol \<and> lnum (pm ! nat r) = leb \<and>
              inuse (pm ! nat r) \<and> \<not> bad (pm ! nat r))"
proof (induction pm vol leb last_peb p rule: lookup_pnum_loop.induct)
  case (1 pm vol leb last_peb p)
  let ?e = "pm ! nat p"
  show ?case
  proof (cases "p \<le> last_peb")
    case False
    with "1.prems" show ?thesis by (subst (asm) lookup_pnum_loop.simps) simp
  next
    case True
    show ?thesis
    proof (cases "vol_id ?e = vol \<and> lnum ?e = leb \<and> inuse ?e \<and> \<not> bad ?e")
      case hit: True
      with True "1.prems" have "r = p"
        by (subst (asm) lookup_pnum_loop.simps) (simp add: Let_def)
      with True hit show ?thesis by simp
    next
      case miss: False
      with True "1.prems" have "lookup_pnum_loop pm vol leb last_peb (p + 1) = r"
        by (subst (asm) lookup_pnum_loop.simps) (auto simp: Let_def)
      from "1.IH"[OF True refl miss this] show ?thesis by auto
    qed
  qed
qed

lemma lookup_pnum_cases:
  assumes wf: "wf_pmap ubi pm"
  shows "ubi_pmap_lookup_pnum ubi pm vol leb = - 1 \<or>
     (0 \<le> ubi_pmap_lookup_pnum ubi pm vol leb \<and> ubi_pmap_lookup_pnum ubi pm vol leb < peb_count ubi \<and>
      vol_id (pm ! nat (ubi_pmap_lookup_pnum ubi pm vol leb)) = vol \<and>
      lnum (pm ! nat (ubi_pmap_lookup_pnum ubi pm vol leb)) = leb \<and>
      inuse (pm ! nat (ubi_pmap_lookup_pnum ubi pm vol leb)) \<and>
      \<not> bad (pm ! nat (ubi_pmap_lookup_pnum ubi pm vol leb)))"
proof -
  obtain first_peb last_peb where area: "ubi_pmap_vol_reserved_area ubi vol = (first_peb, last_peb)"
    by (cases "ubi_pmap_vol_reserved_area ubi vol")
  have b: "0 \<le> first_peb" "last_peb < int (length pm)" using reserved_area_bounds[OF wf area] .
  have eq: "ubi_pmap_lookup_pnum ubi pm vol leb = lookup_pnum_loop pm vol leb last_peb first_peb"
    by (simp add: ubi_pmap_lookup_pnum_def area)
  have len: "int (length pm) = peb_count ubi" using wf by (simp add: wf_pmap_def)
  from lookup_pnum_loop_cases[OF refl, of pm vol leb last_peb first_peb] b len
  show ?thesis unfolding eq by auto
qed

lemma resize_new_inuse:
  assumes wf: "wf_pmap ubi pm" and res: "ubi_pmap_resize_volume ubi pm vol n = Some (r, pm')"
    and i: "i < length pm" and new: "inuse (pm' ! i)" "\<not> inuse (pm ! i)"
  shows "\<not> bad (pm ! i) \<and> \<not> bad (pm' ! i)"
proof -
  obtain first_peb last_peb where area: "ubi_pmap_vol_reserved_area ubi vol = (first_peb, last_peb)"
    by (cases "ubi_pmap_vol_reserved_area ubi vol")
  from resize_cases[OF wf area res]
  consider "pm' = clear_all pm vol first_peb last_peb" | "only_taken pm pm'" | "only_released pm pm'"
    by blast
  then show ?thesis
  proof cases
    case 1
    with i new show ?thesis by (simp add: clear_all_nth zero_pmap_def split: if_splits)
  next
    case 2
    with i have "pm' ! i = pm ! i \<or>
      (\<not> inuse (pm ! i) \<and> \<not> bad (pm ! i) \<and> inuse (pm' ! i) \<and> \<not> bad (pm' ! i))"
      by (simp add: only_taken_def)
    with new show ?thesis by auto
  next
    case 3
    with i have "pm' ! i = pm ! i \<or> pm' ! i = (pm ! i)\<lparr>inuse := False\<rparr>"
      by (simp add: only_released_def)
    with new show ?thesis by auto
  qed
qed

lemma markbad_new_inuse:
  assumes wf: "wf_pmap ubi pm" and rng: "0 \<le> pnum" "pnum < peb_count ubi"
    and res: "ubi_pmap_markbad_replace ubi pm pnum = (r, pm')"
    and q: "0 \<le> q" "q < peb_count ubi" and new: "inuse (pm' ! nat q)" "\<not> inuse (pm ! nat q)"
  shows "q = r \<and> \<not> bad (pm ! nat q) \<and> \<not> bad (pm' ! nat q)"
proof -
  let ?e = "pm ! nat pnum"
  let ?pm1 = "pm[nat pnum := ?e\<lparr>bad := True, inuse := False\<rparr>]"
  have len: "int (length pm) = peb_count ubi" using wf by (simp add: wf_pmap_def)
  have ql: "nat q < length pm" and pl: "nat pnum < length pm" using q rng len by linarith+
  have pm1q: "\<not> inuse (?pm1 ! nat q)"
    using new(2) ql by (cases "nat q = nat pnum") simp_all
  show ?thesis
  proof (cases "inuse ?e \<and> \<not> bad ?e")
    case False
    with res have "pm' = ?pm1" by (subst (asm) markbad_replace_unfold) auto
    with pm1q new show ?thesis by simp
  next
    case True
    with res have "markbad_search_loop ?pm1 (vol_id ?e) (lnum ?e)
        (snd (ubi_pmap_vol_reserved_area ubi (vol_id ?e)))
        (fst (ubi_pmap_vol_reserved_area ubi (vol_id ?e))) = (r, pm')"
      by (subst (asm) markbad_replace_unfold) simp
    from markbad_search_cases[OF this]
    consider "pm' = ?pm1" |
      "fst (ubi_pmap_vol_reserved_area ubi (vol_id ?e)) \<le> r" "peb_free ?pm1 r"
      "pm' = ?pm1[nat r := (?pm1 ! nat r)\<lparr>inuse := True, vol_id := vol_id ?e, lnum := lnum ?e\<rparr>]"
      by blast
    then show ?thesis
    proof cases
      case 1
      with pm1q new show ?thesis by simp
    next
      case 2
      obtain first_peb last_peb where
        area: "ubi_pmap_vol_reserved_area ubi (vol_id ?e) = (first_peb, last_peb)"
        by (cases "ubi_pmap_vol_reserved_area ubi (vol_id ?e)")
      have r0: "0 \<le> r" using 2(1) reserved_area_bounds(1)[OF wf area] by (simp add: area)
      have qr: "nat q = nat r"
      proof (rule ccontr)
        assume "nat q \<noteq> nat r"
        then have "pm' ! nat q = ?pm1 ! nat q" unfolding 2(3) by simp
        with pm1q new(1) show False by simp
      qed
      then have "q = r" using q r0 by simp
      moreover have "nat r \<noteq> nat pnum"
      proof
        assume "nat r = nat pnum"
        then have "bad (?pm1 ! nat r)" using pl by simp
        with 2(2) show False by (simp add: peb_free_def)
      qed
      then have "?pm1 ! nat r = pm ! nat r" by simp
      with 2(2) have nb: "\<not> bad (pm ! nat r)" by (simp add: peb_free_def)
      moreover have "\<not> bad (pm' ! nat r)"
        unfolding 2(3) using ql qr 2(2) by (simp add: peb_free_def)
      ultimately show ?thesis by simp
    qed
  qed
qed

text \<open>
  Claim C9. In every map reachable from a freshly initialised one by
  \<^verbatim>\<open>ubi_pmap_allocate_vol_pebs\<close>, \<^verbatim>\<open>ubi_pmap_resize_volume\<close> and
  \<^verbatim>\<open>ubi_pmap_markbad_replace\<close> calls: the map has exactly one entry per PEB
  number, and a PEB number that \<^verbatim>\<open>ubi_pmap_lookup_pnum\<close> returns is returned for
  one (volume, logical block) pair only, so no two in-use entries share a PEB
  number; a PEB number returned by the lookup is not bad; every entry that a
  resize newly puts in use was not bad before and is not bad after; and the
  only entry that \<^verbatim>\<open>ubi_pmap_markbad_replace\<close> newly puts in use is the returned
  replacement, which was not bad before and is not bad after.
\<close>

theorem reachable_bad_never_chosen:
  assumes dev: "wf_dev ubi" and reach: "reachable ubi pm"
  shows "int (length pm) = peb_count ubi \<and>
    (\<forall>vol leb vol' leb'.
        0 \<le> ubi_pmap_lookup_pnum ubi pm vol leb \<and>
        ubi_pmap_lookup_pnum ubi pm vol leb = ubi_pmap_lookup_pnum ubi pm vol' leb' \<longrightarrow>
        vol = vol' \<and> leb = leb') \<and>
    (\<forall>vol leb.
        0 \<le> ubi_pmap_lookup_pnum ubi pm vol leb \<longrightarrow>
        ubi_pmap_lookup_pnum ubi pm vol leb < peb_count ubi \<and>
        \<not> bad (pm ! nat (ubi_pmap_lookup_pnum ubi pm vol leb))) \<and>
    (\<forall>vol n r pm' q.
        ubi_pmap_resize_volume ubi pm vol n = Some (r, pm') \<and> 0 \<le> q \<and> q < peb_count ubi \<and>
        inuse (pm' ! nat q) \<and> \<not> inuse (pm ! nat q) \<longrightarrow>
        \<not> bad (pm ! nat q) \<and> \<not> bad (pm' ! nat q)) \<and>
    (\<forall>pnum r pm' q.
        0 \<le> pnum \<and> pnum < peb_count ubi \<and> ubi_pmap_markbad_replace ubi pm pnum = (r, pm') \<and>
        0 \<le> q \<and> q < peb_count ubi \<and> inuse (pm' ! nat q) \<and> \<not> inuse (pm ! nat q) \<longrightarrow>
        q = r \<and> \<not> bad (pm ! nat q) \<and> \<not> bad (pm' ! nat q))"
proof -
  have wf: "wf_pmap ubi pm" using reachable_wf_flags[OF dev reach] by simp
  then have len: "int (length pm) = peb_count ubi" by (simp add: wf_pmap_def)
  have owner: "vol = vol' \<and> leb = leb'"
    if "0 \<le> ubi_pmap_lookup_pnum ubi pm vol leb \<and>
        ubi_pmap_lookup_pnum ubi pm vol leb = ubi_pmap_lookup_pnum ubi pm vol' leb'"
    for vol leb vol' leb'
    using that lookup_pnum_cases[OF wf, of vol leb] lookup_pnum_cases[OF wf, of vol' leb'] by auto
  have notbad: "ubi_pmap_lookup_pnum ubi pm vol leb < peb_count ubi \<and>
        \<not> bad (pm ! nat (ubi_pmap_lookup_pnum ubi pm vol leb))"
    if "0 \<le> ubi_pmap_lookup_pnum ubi pm vol leb" for vol leb
    using that lookup_pnum_cases[OF wf, of vol leb] by auto
  have rs: "\<not> bad (pm ! nat q) \<and> \<not> bad (pm' ! nat q)"
    if "ubi_pmap_resize_volume ubi pm vol n = Some (r, pm') \<and> 0 \<le> q \<and> q < peb_count ubi \<and>
        inuse (pm' ! nat q) \<and> \<not> inuse (pm ! nat q)" for vol n r pm' q
  proof -
    have "nat q < length pm" using that len by linarith
    with that show ?thesis using resize_new_inuse[OF wf] by blast
  qed
  have mb: "q = r \<and> \<not> bad (pm ! nat q) \<and> \<not> bad (pm' ! nat q)"
    if "0 \<le> pnum \<and> pnum < peb_count ubi \<and> ubi_pmap_markbad_replace ubi pm pnum = (r, pm') \<and>
        0 \<le> q \<and> q < peb_count ubi \<and> inuse (pm' ! nat q) \<and> \<not> inuse (pm ! nat q)" for pnum r pm' q
    using that markbad_new_inuse[OF wf] by blast
  from len owner notbad rs mb show ?thesis by blast
qed

lemma reachable_pm_hole: "reachable dev4 pm_hole"
proof -
  have s1: "ubi_pmap_resize_volume dev4 (ubi_pmap_init dev4) 5 3 =
     Some (0, [zero_pmap, used 5 0, used 5 1, used 5 2])"
    by code_simp
  have s2: "ubi_pmap_markbad_replace dev4 [zero_pmap, used 5 0, used 5 1, used 5 2] 2 =
     (- ENOMEM, pm_hole)"
    by code_simp
  have "reachable dev4 [zero_pmap, used 5 0, used 5 1, used 5 2]"
    by (rule reachable.resize[OF reachable.init s1])
  then show ?thesis
    by (rule reachable.markbad[OF _ _ _ s2]) (simp_all add: dev4_def)
qed

theorem reachable_bad_never_chosen_witness:
  "wf_dev dev4 \<and> reachable dev4 pm_hole \<and>
   ubi_pmap_lookup_pnum dev4 pm_hole 5 2 = 3 \<and>
   \<not> bad (pm_hole ! nat (ubi_pmap_lookup_pnum dev4 pm_hole 5 2))"
proof -
  have dev: "wf_dev dev4" by (simp add: wf_dev_def dev4_def)
  have l: "ubi_pmap_lookup_pnum dev4 pm_hole 5 2 = 3" by code_simp
  from reachable_bad_never_chosen[OF dev reachable_pm_hole]
  have "0 \<le> ubi_pmap_lookup_pnum dev4 pm_hole 5 2 \<longrightarrow>
        \<not> bad (pm_hole ! nat (ubi_pmap_lookup_pnum dev4 pm_hole 5 2))"
    by blast
  with l dev reachable_pm_hole show ?thesis by simp
qed

text \<open>
  Claim C8: in every map that a sequence of \<^verbatim>\<open>ubi_pmap_allocate_vol_pebs\<close>,
  \<^verbatim>\<open>ubi_pmap_resize_volume\<close> and \<^verbatim>\<open>ubi_pmap_markbad_replace\<close> calls reaches from
  the freshly initialised map of a device, no entry has its \<open>bad\<close> flag and
  its \<open>inuse\<close> flag both set. \<^verbatim>\<open>ubi_pmap_markbad_replace\<close> clears \<open>inuse\<close> when
  it sets \<open>bad\<close>, and the other functions put in use only entries with
  \<open>bad\<close> clear.
\<close>

theorem reachable_flags_exclusive:
  "wf_dev ubi \<Longrightarrow> reachable ubi pm \<Longrightarrow> flags_exclusive pm"
  using reachable_wf_flags by blast

theorem reachable_flags_exclusive_witness:
  "wf_dev dev4 \<and> reachable dev4 [zero_pmap, marked_bad 5 0, used 5 1, used 5 0] \<and>
   flags_exclusive [zero_pmap, marked_bad 5 0, used 5 1, used 5 0]"
proof -
  have dev: "wf_dev dev4" by (simp add: wf_dev_def dev4_def)
  have s1: "ubi_pmap_resize_volume dev4 (ubi_pmap_init dev4) 5 2 =
     Some (0, [zero_pmap, used 5 0, used 5 1, zero_pmap])"
    by code_simp
  have s2: "ubi_pmap_markbad_replace dev4 [zero_pmap, used 5 0, used 5 1, zero_pmap] 1 =
     (3, [zero_pmap, marked_bad 5 0, used 5 1, used 5 0])"
    by code_simp
  have "reachable dev4 [zero_pmap, used 5 0, used 5 1, zero_pmap]"
    by (rule reachable.resize[OF reachable.init s1])
  then have r: "reachable dev4 [zero_pmap, marked_bad 5 0, used 5 1, used 5 0]"
    by (rule reachable.markbad[OF _ _ _ s2]) (simp_all add: dev4_def)
  from reachable_flags_exclusive[OF dev r] dev r show ?thesis by simp
qed

text \<open>
  The earlier draft in \<^verbatim>\<open>drivers/mtd/ubi2/pmap.c\<close> encodes a bad PEB otherwise:
  its \<^verbatim>\<open>ubi_pmap_markbad_replace\<close> sets \<open>bad\<close> and leaves \<open>inuse\<close>, and its
  loops take an entry for a PEB of the volume only when \<open>inuse\<close> is set and
  \<open>bad\<close> is clear. On the fresh example device, resize volume 5 to one PEB
  (PEB 0 is taken), then mark PEB 0 bad: the entry of PEB 0 keeps \<open>inuse\<close> and
  gains \<open>bad\<close>, and PEB 1 is the replacement.
\<close>

lemma markbad_replace_old_keeps_inuse:
  "ubi_pmap_resize_volume_old dev4 (ubi_pmap_init dev4) 5 1 =
     (0, [used 5 0, zero_pmap, zero_pmap, zero_pmap]) \<and>
   ubi_pmap_markbad_replace_old dev4 [used 5 0, zero_pmap, zero_pmap, zero_pmap] 0 =
     (1, [\<lparr>vol_id = 5, lnum = 0, inuse = True, bad = True\<rparr>, used 5 0, zero_pmap, zero_pmap])"
  by code_simp

subsection \<open>Shrinking and deleting a volume\<close>





lemma length_release_all [simp]:
  "length (release_all pm vol first_peb last_peb lo hi) = length pm"
  by (simp add: release_all_def)













subsection \<open>Extracting the runs and allocating them again\<close>

lemma length_mask [simp]: "length (mask pm i) = length pm"
  by (simp add: mask_def)

lemma mask_nth: "k < length pm \<Longrightarrow> mask pm i ! k = (if int k < i then pm ! k else zero_pmap)"
  by (simp add: mask_def)

lemma mask_0: "wf_pmap ubi pm \<Longrightarrow> mask pm 0 = ubi_pmap_init ubi"
  by (rule nth_equalityI) (auto simp: mask_nth ubi_pmap_init_def wf_pmap_def)

lemma mask_all: "int (length pm) \<le> i \<Longrightarrow> mask pm i = pm"
  by (rule nth_equalityI) (auto simp: mask_nth)

lemma mask_skip:
  assumes "0 \<le> i" "nat i < length pm" "pm ! nat i = zero_pmap"
  shows "mask pm (i + 1) = mask pm i"
proof (rule nth_equalityI)
  fix k assume "k < length (mask pm (i + 1))"
  then have k: "k < length pm" by simp
  show "mask pm (i + 1) ! k = mask pm i ! k"
  proof (cases "int k = i")
    case True
    then have "k = nat i" by simp
    with assms k True show ?thesis by (simp add: mask_nth)
  next
    case False
    with k show ?thesis by (auto simp: mask_nth)
  qed
qed simp

lemma run_from_start: "inuse (pm ! nat i) \<Longrightarrow> run_from pm i (i + 1)"
  unfolding run_from_def
proof (intro allI impI)
  fix k assume "inuse (pm ! nat i)" "i \<le> k \<and> k < i + 1"
  moreover from this have "k = i" by simp
  ultimately show "inuse (pm ! nat k) \<and> vol_id (pm ! nat k) = vol_id (pm ! nat i) \<and>
        bad (pm ! nat k) = bad (pm ! nat i) \<and> lnum (pm ! nat k) = lnum (pm ! nat i) + k - i"
    by simp
qed

lemma run_from_extend:
  assumes "run_from pm b i" "inuse (pm ! nat i)" "vol_id (pm ! nat i) = vol_id (pm ! nat b)"
    "bad (pm ! nat i) = bad (pm ! nat b)" "lnum (pm ! nat i) = lnum (pm ! nat b) + i - b"
  shows "run_from pm b (i + 1)"
  unfolding run_from_def
proof (intro allI impI)
  fix k assume k: "b \<le> k \<and> k < i + 1"
  show "inuse (pm ! nat k) \<and> vol_id (pm ! nat k) = vol_id (pm ! nat b) \<and>
        bad (pm ! nat k) = bad (pm ! nat b) \<and> lnum (pm ! nat k) = lnum (pm ! nat b) + k - b"
  proof (cases "k = i")
    case True
    with assms show ?thesis by simp
  next
    case False
    with k have "b \<le> k \<and> k < i" by simp
    with assms(1) show ?thesis unfolding run_from_def by blast
  qed
qed

lemma flush_run:
  assumes wf: "wf_pmap ubi pm" and ex: "extractable ubi pm"
    and b: "0 \<le> b" "b < i" "i \<le> peb_count ubi" and run: "run_from pm b i"
  shows "ubi_pmap_allocate_vol_pebs ubi (mask pm b) (vol_id (pm ! nat b)) b (lnum (pm ! nat b))
           (i - b) (bad (pm ! nat b)) = (0, mask pm i)"
proof -
  let ?v = "vol_id (pm ! nat b)"
  let ?l = "lnum (pm ! nat b)"
  have len: "int (length pm) = peb_count ubi" using wf by (simp add: wf_pmap_def)
  obtain first_peb last_peb where area: "ubi_pmap_vol_reserved_area ubi ?v = (first_peb, last_peb)"
    by (cases "ubi_pmap_vol_reserved_area ubi ?v")
  have ent: "inuse (pm ! nat k) \<and> vol_id (pm ! nat k) = ?v \<and> bad (pm ! nat k) = bad (pm ! nat b) \<and>
             lnum (pm ! nat k) = ?l + k - b" if "b \<le> k" "k < i" for k
    using run that unfolding run_from_def by blast
  have cl: "\<not> bad (pm ! nat k) \<and> first_peb \<le> k \<and> k \<le> last_peb" if "b \<le> k" "k < i" for k
  proof -
    have kl: "nat k < length pm" "int (nat k) = k" using that b len by linarith+
    from ex kl(1) ent[OF that]
    have "\<not> bad (pm ! nat k) \<and> peb_in_area ubi (vol_id (pm ! nat k)) (int (nat k))"
      unfolding extractable_def by (metis (full_types))
    then show ?thesis using ent[OF that] unfolding kl(2) by (simp add: peb_in_area_def area)
  qed
  have nb: "\<not> bad (pm ! nat b)" using cl[of b] b by simp
  have lo: "first_peb \<le> b" using cl[of b] b by simp
  have hi: "i - 1 \<le> last_peb" using cl[of "i - 1"] b by simp
  have notalloc: "\<not> allocated_loop (mask pm b) ?v b (i - b) 0"
  proof -
    have "\<not> inuse (mask pm b ! nat (b + j))" if "0 \<le> j" "j < i - b" for j
    proof -
      have "nat (b + j) < length pm" "\<not> int (nat (b + j)) < b" using that b len by linarith+
      then show ?thesis by (simp add: mask_nth zero_pmap_def)
    qed
    then show ?thesis unfolding allocated_loop_eq by blast
  qed
  have "allocate_loop (mask pm b) ?v b ?l (i - b) False 0 = allocate_all (mask pm b) ?v b ?l (i - b) False 0"
    using b len by (intro allocate_loop_eq) simp_all
  also have "\<dots> = mask pm i"
  proof (rule nth_equalityI)
    fix k assume "k < length (allocate_all (mask pm b) ?v b ?l (i - b) False 0)"
    then have k: "k < length pm" by simp
    then have k1: "k < length (mask pm b)" by simp
    show "allocate_all (mask pm b) ?v b ?l (i - b) False 0 ! k = mask pm i ! k"
    proof (cases "b \<le> int k \<and> int k < i")
      case True
      from ent[of "int k"] True nb
      have "pm ! k = \<lparr>vol_id = ?v, lnum = ?l + (int k - b), inuse = True, bad = False\<rparr>"
        by (cases "pm ! k") simp
      with True show ?thesis
        unfolding allocate_all_nth[OF k1] mask_nth[OF k] by simp
    next
      case False
      then show ?thesis
        unfolding allocate_all_nth[OF k1] mask_nth[OF k] using b by auto
    qed
  qed simp
  finally have al: "allocate_loop (mask pm b) ?v b ?l (i - b) False 0 = mask pm i" .
  show ?thesis
    using lo hi notalloc nb al by (simp add: ubi_pmap_allocate_vol_pebs_def area)
qed

lemma extract_allocate_loop:
  assumes wf: "wf_pmap ubi pm" and ex: "extractable ubi pm"
  shows "0 \<le> i \<Longrightarrow> i \<le> peb_count ubi \<Longrightarrow>
    (case blk of None \<Rightarrow> acc = mask pm i
     | Some b \<Rightarrow> 0 \<le> b \<and> b < i \<and> acc = mask pm b \<and> run_from pm b i) \<Longrightarrow>
    extract_loop ubi pm (ubi_pmap_allocate_vol_pebs ubi) i blk acc = (0, pm)"
proof (induction "nat (peb_count ubi - i)" arbitrary: i blk acc rule: less_induct)
  case less
  have len: "int (length pm) = peb_count ubi" using wf by (simp add: wf_pmap_def)
  show ?case
  proof (cases "i < peb_count ubi")
    case False
    then have ie: "i = peb_count ubi" using less.prems(2) by simp
    have "blk = None"
    proof (cases blk)
      case (Some b)
      with less.prems(3) have b: "0 \<le> b" "b < i" and run: "run_from pm b i" by simp_all
      then have "inuse (pm ! nat (i - 1))" unfolding run_from_def by simp
      moreover have "pm \<noteq> []" using b ie len by auto
      moreover have "nat (i - 1) = length pm - 1" using ie len by linarith
      then have "last pm = pm ! nat (i - 1)"
        using \<open>pm \<noteq> []\<close> by (simp add: last_conv_nth)
      ultimately show ?thesis using ex by (simp add: extractable_def)
    qed simp
    with less.prems(3) ie len have "acc = pm" by (simp add: mask_all)
    with False show ?thesis by (subst extract_loop.simps) simp
  next
    case True
    let ?e = "pm ! nat i"
    have il: "nat i < length pm" "int (nat i) = i" using True less.prems(1) len by linarith+
    have clean: "\<not> inuse ?e \<Longrightarrow> ?e = zero_pmap"
      using ex il(1) unfolding extractable_def by metis
    have m: "nat (peb_count ubi - (i + 1)) < nat (peb_count ubi - i)" using True by simp
    have i1: "0 \<le> i + 1" "i + 1 \<le> peb_count ubi" using True less.prems(1) by simp_all
    text \<open>What the loop does after the current entry, from the accumulated map \<open>mask pm i\<close>.\<close>
    have rest: "extract_loop ubi pm (ubi_pmap_allocate_vol_pebs ubi) (i + 1)
                  (if inuse ?e then Some i else None) (mask pm i) = (0, pm)"
    proof (cases "inuse ?e")
      case True
      then show ?thesis
        using less.hyps[OF m i1, where blk = "Some i" and acc = "mask pm i"] less.prems(1) run_from_start[of pm i]
        by simp
    next
      case False
      then have "mask pm (i + 1) = mask pm i"
        using mask_skip[OF less.prems(1) il(1)] clean by simp
      with False show ?thesis
        using less.hyps[OF m i1, where blk = "None" and acc = "mask pm i"] by simp
    qed
    show ?thesis
    proof (cases blk)
      case None
      with less.prems(3) have acc: "acc = mask pm i" by simp
      show ?thesis
        using True None rest unfolding acc
        by (subst extract_loop.simps) (simp add: Let_def)
    next
      case (Some b)
      with less.prems(3) have b: "0 \<le> b" "b < i" and acc: "acc = mask pm b"
        and run: "run_from pm b i" by simp_all
      let ?f = "pm ! nat b"
      show ?thesis
      proof (cases "\<not> inuse ?e \<or> vol_id ?e \<noteq> vol_id ?f \<or> bad ?e \<noteq> bad ?f \<or>
                    lnum ?e \<noteq> lnum ?f + i - b")
        case brk: True
        have fl: "ubi_pmap_allocate_vol_pebs ubi (mask pm b) (vol_id ?f) b (lnum ?f) (i - b) (bad ?f) =
                  (0, mask pm i)"
          using wf ex b less.prems(2) run by (rule flush_run)
        show ?thesis
          using True Some brk rest unfolding acc
          by (subst extract_loop.simps) (simp add: Let_def fl)
      next
        case cont: False
        then have "run_from pm b (i + 1)" using run by (intro run_from_extend) simp_all
        then have "extract_loop ubi pm (ubi_pmap_allocate_vol_pebs ubi) (i + 1) (Some b) acc = (0, pm)"
          using less.hyps[OF m i1, where blk = "Some b" and acc = "acc"] b acc by simp
        then show ?thesis
          using True Some cont by (subst extract_loop.simps) (simp add: Let_def)
      qed
    qed
  qed
qed

text \<open>
  Where the round trip is exact. Let every entry of the map that is not in use
  be all zero, every entry in use be not bad and inside the reserved area of its
  volume, and the last PEB of the device be not in use. Then
  \<^verbatim>\<open>ubi_pmap_extract_vol_pebs\<close>, with \<^verbatim>\<open>ubi_pmap_allocate_vol_pebs\<close> as the callback
  and a freshly initialised map of the same device as its state, returns 0 and
  leaves a map equal to the original, entry by entry.
\<close>

lemma extract_allocate_exact:
  assumes wf: "wf_pmap ubi pm" and ex: "extractable ubi pm"
  shows "ubi_pmap_extract_vol_pebs ubi pm (ubi_pmap_allocate_vol_pebs ubi) (ubi_pmap_init ubi) = (0, pm)"
proof -
  have "0 \<le> peb_count ubi" using wf by (simp add: wf_pmap_def)
  then show ?thesis
    unfolding ubi_pmap_extract_vol_pebs_def mask_0[OF wf, symmetric]
    by (intro extract_allocate_loop[OF wf ex]) simp_all
qed

lemma extract_allocate_exact_example:
  "wf_pmap dev4 [used 100 0, used 5 0, used 5 1, zero_pmap] \<and>
   extractable dev4 [used 100 0, used 5 0, used 5 1, zero_pmap] \<and>
   ubi_pmap_extract_vol_pebs dev4 [used 100 0, used 5 0, used 5 1, zero_pmap]
     (ubi_pmap_allocate_vol_pebs dev4) (ubi_pmap_init dev4) =
     (0, [used 100 0, used 5 0, used 5 1, zero_pmap])"
proof -
  let ?pm = "[used 100 0, used 5 0, used 5 1, zero_pmap]"
  have wf: "wf_pmap dev4 ?pm" by (simp add: wf_pmap_def dev4_def)
  have ex: "extractable dev4 ?pm" by code_simp
  from extract_allocate_exact[OF wf ex] wf ex show ?thesis by simp
qed

text \<open>
  The runs that \<^verbatim>\<open>ubi_pmap_extract_vol_pebs\<close> hands to a callback that records
  them. A volume on PEBs 1 to 3 of the example device, the last PEB included,
  gives no run at all: the loop ends with the run still open and nothing
  follows the loop. A bad entry gives no run either: only an entry in use
  starts one, although the loop compares the \<open>bad\<close> flag and passes it on.
\<close>

lemma extract_emits_no_last_run:
  "ubi_pmap_extract_vol_pebs dev4 [zero_pmap, used 5 0, used 5 1, used 5 2]
     (\<lambda>runs vol peb leb blocks bd. (0, runs @ [(vol, peb, leb, blocks, bd)])) [] = (0, [])"
  by code_simp

lemma extract_emits_no_bad_run:
  "ubi_pmap_extract_vol_pebs dev4 [zero_pmap, marked_bad 5 0, used 5 0, zero_pmap]
     (\<lambda>runs vol peb leb blocks bd. (0, runs @ [(vol, peb, leb, blocks, bd)])) [] =
     (0, [(5, 2, 0, 1, False)])"
  by code_simp

text \<open>An entry released by a shrink keeps its \<open>vol_id\<close> and \<open>lnum\<close> in the
  original and is all zero in the copy.\<close>

lemma extract_allocate_drops_stale_fields:
  "ubi_pmap_extract_vol_pebs dev4 [zero_pmap, used 5 0, (used 5 1)\<lparr>inuse := False\<rparr>, zero_pmap]
     (ubi_pmap_allocate_vol_pebs dev4) (ubi_pmap_init dev4) =
     (0, [zero_pmap, used 5 0, zero_pmap, zero_pmap])"
  by code_simp

text \<open>
  Claim C3 asks that extracting the runs of a map with
  \<^verbatim>\<open>ubi_pmap_extract_vol_pebs\<close> and allocating each of them with
  \<^verbatim>\<open>ubi_pmap_allocate_vol_pebs\<close> into a freshly initialised map of the same size
  gives the original map back, entry by entry. On the fresh example device,
  create volume 5 with three PEBs: it takes PEBs 1 to 3, up to the last PEB of
  the device. The run of PEBs 1 to 3 is never handed to the callback and the
  copy is the empty map. Again on the fresh device, create volume 5 with one PEB
  and mark PEB 1 bad: PEB 2 replaces it. The bad entry of PEB 1 starts no run
  and the copy has PEB 2 in use and no bad entry.
\<close>

theorem extract_allocate_roundtrip_fails:
  "ubi_pmap_resize_volume dev4 (ubi_pmap_init dev4) 5 3 =
     Some (0, [zero_pmap, used 5 0, used 5 1, used 5 2]) \<and>
   ubi_pmap_extract_vol_pebs dev4 [zero_pmap, used 5 0, used 5 1, used 5 2]
     (ubi_pmap_allocate_vol_pebs dev4) (ubi_pmap_init dev4) =
     (0, [zero_pmap, zero_pmap, zero_pmap, zero_pmap]) \<and>
   ubi_pmap_resize_volume dev4 (ubi_pmap_init dev4) 5 1 =
     Some (0, [zero_pmap, used 5 0, zero_pmap, zero_pmap]) \<and>
   ubi_pmap_markbad_replace dev4 [zero_pmap, used 5 0, zero_pmap, zero_pmap] 1 =
     (2, [zero_pmap, marked_bad 5 0, used 5 0, zero_pmap]) \<and>
   ubi_pmap_extract_vol_pebs dev4 [zero_pmap, marked_bad 5 0, used 5 0, zero_pmap]
     (ubi_pmap_allocate_vol_pebs dev4) (ubi_pmap_init dev4) =
     (0, [zero_pmap, zero_pmap, used 5 0, zero_pmap])"
  by code_simp

section \<open>Properties of the layout volume recovery\<close>

text \<open>The reading loop runs once: after round 0 the index is 2, which is not below
  \<^verbatim>\<open>UBI_LAYOUT_VOLUME_COPIES\<close>. Copy 1 is never read, and \<^verbatim>\<open>leb[1]\<close> and
  \<^verbatim>\<open>pmap_leb[1]\<close> stay \<^verbatim>\<open>NULL\<close>.\<close>

lemma read_copies_once:
  "read_copies env fl 0 [None, None] [None, None] =
     (if \<not> vmalloc_vtbl_ok env 0 \<or> \<not> vmalloc_ptbl_ok env 0 then Inl (- ENOMEM)
      else Inr ([Some (fst (read_table env fl 0)), None], [Some (snd (read_table env fl 0)), None]))"
proof -
  have fin: "read_copies env fl 2 l p = Inr (l, p)" for l p
    by (subst read_copies.simps) (simp add: UBI_LAYOUT_VOLUME_COPIES_def)
  show ?thesis
    by (subst read_copies.simps)
       (simp add: UBI_LAYOUT_VOLUME_COPIES_def UBI_LAYOUT_VOLUME_EBS_PER_COPY_def fin read_table_def)
qed

text \<open>With a valid copy 0, \<^verbatim>\<open>process_lvol\<close> writes copy 0's images to copy 1,
  whatever copy 1 holds, and adopts copy 0 if the writing succeeds. With an
  invalid copy 0 it returns \<^verbatim>\<open>-EINVAL\<close> and writes nothing, whatever copy 1
  holds.\<close>

lemma process_lvol_copy0_valid:
  assumes "vmalloc_vtbl_ok env 0" "vmalloc_ptbl_ok env 0" "table_valid env (read_table env fl 0)"
  shows "process_lvol env fl =
     (let (v0, p0) = read_table env fl 0; (err, fl') = create_vtbl env fl 1 v0 p0
      in if err \<noteq> 0 then (err, fl', None) else (0, fl', Some (v0, p0)))"
  using assms
  by (simp add: process_lvol_def read_copies_once table_valid_def Let_def split: prod.splits)

lemma process_lvol_copy0_invalid:
  assumes "vmalloc_vtbl_ok env 0" "vmalloc_ptbl_ok env 0" "\<not> table_valid env (read_table env fl 0)"
  shows "process_lvol env fl = (- EINVAL, fl, None)"
  using assms
  by (simp add: process_lvol_def read_copies_once table_valid_def Let_def split: prod.splits)

lemma create_vtbl_ok:
  assumes "unmap_err env (copy * 2) = 0" "write_err env (copy * 2) = 0"
    "unmap_err env (copy * 2 + 1) = 0" "write_err env (copy * 2 + 1) = 0"
  shows "create_vtbl env fl copy vtbl ptbl =
     (0, \<lparr>lebs = (lebs fl)(copy * 2 := vtbl, copy * 2 + 1 := ptbl),
          io_log = io_log fl @ [Unmap (copy * 2), Write (copy * 2) vtbl,
                                Unmap (copy * 2 + 1), Write (copy * 2 + 1) ptbl]\<rparr>)"
  using assms
  by (simp add: create_vtbl_def UBI_LAYOUT_VOLUME_EBS_PER_COPY_def ubi_eba_unmap_leb_def
      ubi_eba_write_leb_def Let_def)

text \<open>
  Claim C1 asks that nothing is rewritten when copy 1 is identical to a valid
  copy 0. On a flash with two identical valid copies and no failure,
  \<^verbatim>\<open>process_lvol\<close> returns 0 and adopts copy 0, and it has unmapped and
  rewritten both LEBs of copy 1.
\<close>

theorem process_lvol_rewrites_identical_copy:
  "read_table env_ok flash_same 0 = ([1], [2]) \<and> read_table env_ok flash_same 1 = ([1], [2]) \<and>
   table_valid env_ok (read_table env_ok flash_same 0) \<and>
   fst (process_lvol env_ok flash_same) = 0 \<and>
   snd (snd (process_lvol env_ok flash_same)) = Some ([1], [2]) \<and>
   io_log (fst (snd (process_lvol env_ok flash_same))) =
     [Unmap 2, Write 2 [1], Unmap 3, Write 3 [2]]"
proof -
  have r: "read_table env_ok flash_same 0 = ([1], [2])" "read_table env_ok flash_same 1 = ([1], [2])"
    by (simp_all add: read_table_def ubi_eba_read_leb_def env_ok_def flash_same_def
        UBI_LAYOUT_VOLUME_EBS_PER_COPY_def)
  have v: "table_valid env_ok (read_table env_ok flash_same 0)"
    unfolding r table_valid_def by (simp add: env_ok_def)
  have a: "vmalloc_vtbl_ok env_ok 0" "vmalloc_ptbl_ok env_ok 0" by (simp_all add: env_ok_def)
  have c: "create_vtbl env_ok flash_same 1 [1] [2] =
     (0, \<lparr>lebs = (lebs flash_same)(1 * 2 := [1], 1 * 2 + 1 := [2]),
          io_log = io_log flash_same @ [Unmap (1 * 2), Write (1 * 2) [1],
                                Unmap (1 * 2 + 1), Write (1 * 2 + 1) [2]]\<rparr>)"
    by (rule create_vtbl_ok) (simp_all add: env_ok_def)
  have "process_lvol env_ok flash_same =
     (0, \<lparr>lebs = (lebs flash_same)(1 * 2 := [1], 1 * 2 + 1 := [2]),
          io_log = io_log flash_same @ [Unmap (1 * 2), Write (1 * 2) [1],
                                Unmap (1 * 2 + 1), Write (1 * 2 + 1) [2]]\<rparr>, Some ([1], [2]))"
    by (simp add: process_lvol_copy0_valid[OF a v] r c)
  then show ?thesis using r v by (simp add: flash_same_def)
qed

lemma create_empty_copies_ok:
  assumes "io_ok env"
  shows "create_empty_copies env fl 0 vtbl ptbl =
     (0, \<lparr>lebs = (lebs fl)(0 := vtbl, 1 := ptbl, 2 := vtbl, 3 := ptbl),
          io_log = io_log fl @ [Unmap 0, Write 0 vtbl, Unmap 1, Write 1 ptbl,
                                Unmap 2, Write 2 vtbl, Unmap 3, Write 3 ptbl]\<rparr>)"
proof -
  have e: "unmap_err env 0 = 0" "write_err env 0 = 0" "unmap_err env 1 = 0" "write_err env 1 = 0"
    "unmap_err env 2 = 0" "write_err env 2 = 0" "unmap_err env 3 = 0" "write_err env 3 = 0"
    using assms by (simp_all add: io_ok_def)
  have c0: "create_vtbl env fl 0 vtbl ptbl =
     (0, \<lparr>lebs = (lebs fl)(0 := vtbl, 1 := ptbl),
          io_log = io_log fl @ [Unmap 0, Write 0 vtbl, Unmap 1, Write 1 ptbl]\<rparr>)"
    using create_vtbl_ok[of env 0 fl vtbl ptbl] e by simp
  have c1: "create_vtbl env fl' 1 vtbl ptbl =
     (0, \<lparr>lebs = (lebs fl')(2 := vtbl, 3 := ptbl),
          io_log = io_log fl' @ [Unmap 2, Write 2 vtbl, Unmap 3, Write 3 ptbl]\<rparr>)" for fl'
    using create_vtbl_ok[of env 1 fl' vtbl ptbl] e by simp
  have fin: "create_empty_copies env fl' 2 vtbl ptbl = (0, fl')" for fl'
    by (subst create_empty_copies.simps) (simp add: UBI_LAYOUT_VOLUME_COPIES_def)
  have s1: "create_empty_copies env fl' 1 vtbl ptbl =
     (0, \<lparr>lebs = (lebs fl')(2 := vtbl, 3 := ptbl),
          io_log = io_log fl' @ [Unmap 2, Write 2 vtbl, Unmap 3, Write 3 ptbl]\<rparr>)" for fl'
    by (subst create_empty_copies.simps) (simp add: UBI_LAYOUT_VOLUME_COPIES_def c1 fin)
  show ?thesis
    by (subst create_empty_copies.simps) (simp add: UBI_LAYOUT_VOLUME_COPIES_def c0 s1)
qed

text \<open>
  Claim C2, as the code has it. When both copies fail validation (and the
  buffers of the reading loop were allocated), \<^verbatim>\<open>process_lvol\<close> returns
  \<^verbatim>\<open>-EINVAL\<close> and has written nothing. \<^verbatim>\<open>ubi_read_volume_table\<close> does not stop
  there: if \<^verbatim>\<open>create_empty_lvol\<close> has its two empty images and the flash takes
  the writes, the images are written to copy 0 and then to copy 1, and the attach
  goes on with them; it fails only if \<^verbatim>\<open>init_volumes\<close> or \<^verbatim>\<open>check_volume_pmap\<close>
  fails.
\<close>

theorem attach_both_copies_invalid:
  assumes a: "vmalloc_vtbl_ok env 0" "vmalloc_ptbl_ok env 0"
    and c0: "\<not> table_valid env (read_table env fl 0)"
    and c1: "\<not> table_valid env (read_table env fl 1)"
  shows "process_lvol env fl = (- EINVAL, fl, None) \<and>
    (init_layout_volume env = 0 \<and> io_ok env \<and> empty_lvol_tables env = Some (ev, ep) \<longrightarrow>
       (\<exists>fl'. lebs fl' = (lebs fl)(0 := ev, 1 := ep, 2 := ev, 3 := ep) \<and>
              io_log fl' = io_log fl @ [Unmap 0, Write 0 ev, Unmap 1, Write 1 ep,
                                        Unmap 2, Write 2 ev, Unmap 3, Write 3 ep] \<and>
              ubi_read_volume_table env fl =
                (if init_volumes env ev ep \<noteq> 0 then (init_volumes env ev ep, fl', None)
                 else if check_volume_pmap env ev ep \<noteq> 0
                      then (check_volume_pmap env ev ep, fl', None)
                      else (0, fl', Some (ev, ep)))))"
proof (intro conjI impI)
  show p: "process_lvol env fl = (- EINVAL, fl, None)"
    using a c0 by (rule process_lvol_copy0_invalid)
  assume h: "init_layout_volume env = 0 \<and> io_ok env \<and> empty_lvol_tables env = Some (ev, ep)"
  let ?fl' = "\<lparr>lebs = (lebs fl)(0 := ev, 1 := ep, 2 := ev, 3 := ep),
          io_log = io_log fl @ [Unmap 0, Write 0 ev, Unmap 1, Write 1 ep,
                                Unmap 2, Write 2 ev, Unmap 3, Write 3 ep]\<rparr>"
  have ce: "create_empty_lvol env fl = (0, ?fl', Some (ev, ep))"
    using h by (simp add: create_empty_lvol_def create_empty_copies_ok)
  have "ubi_read_volume_table env fl =
                (if init_volumes env ev ep \<noteq> 0 then (init_volumes env ev ep, ?fl', None)
                 else if check_volume_pmap env ev ep \<noteq> 0
                      then (check_volume_pmap env ev ep, ?fl', None)
                      else (0, ?fl', Some (ev, ep)))"
    using h by (simp add: ubi_read_volume_table_def p ce EINVAL_def)
  then show "\<exists>fl'. lebs fl' = (lebs fl)(0 := ev, 1 := ep, 2 := ev, 3 := ep) \<and>
              io_log fl' = io_log fl @ [Unmap 0, Write 0 ev, Unmap 1, Write 1 ep,
                                        Unmap 2, Write 2 ev, Unmap 3, Write 3 ep] \<and>
              ubi_read_volume_table env fl =
                (if init_volumes env ev ep \<noteq> 0 then (init_volumes env ev ep, fl', None)
                 else if check_volume_pmap env ev ep \<noteq> 0
                      then (check_volume_pmap env ev ep, fl', None)
                      else (0, fl', Some (ev, ep)))"
    by (intro exI[of _ ?fl']) simp
qed

theorem attach_both_copies_invalid_witness:
  "\<not> table_valid env_lost (read_table env_lost flash_lost 0) \<and>
   \<not> table_valid env_lost (read_table env_lost flash_lost 1) \<and>
   process_lvol env_lost flash_lost = (- EINVAL, flash_lost, None) \<and>
   (\<exists>fl'. io_log fl' = [Unmap 0, Write 0 [0], Unmap 1, Write 1 [0],
                        Unmap 2, Write 2 [0], Unmap 3, Write 3 [0]] \<and>
          ubi_read_volume_table env_lost flash_lost = (0, fl', Some ([0], [0])))"
proof -
  have a: "vmalloc_vtbl_ok env_lost 0" "vmalloc_ptbl_ok env_lost 0"
    by (simp_all add: env_lost_def env_ok_def)
  have c: "\<not> table_valid env_lost t" for t by (simp add: table_valid_def env_lost_def env_ok_def)
  have h: "init_layout_volume env_lost = 0 \<and> io_ok env_lost \<and>
           empty_lvol_tables env_lost = Some ([0], [0])"
    by (simp add: env_lost_def env_ok_def io_ok_def)
  have iv: "init_volumes env_lost [0] [0] = 0" "check_volume_pmap env_lost [0] [0] = 0"
    by (simp_all add: env_lost_def env_ok_def)
  have lg: "io_log flash_lost = []" by (simp add: flash_lost_def)
  from attach_both_copies_invalid[where env = env_lost and fl = flash_lost and ev = "[0]"
      and ep = "[0]", OF a c c] h
  show ?thesis using c by (auto simp: iv lg)
qed

text \<open>
  An attach with both copies lost that succeeds: every image fails the CRC
  check, nothing else fails; \<^verbatim>\<open>ubi_read_volume_table\<close> returns 0 with the empty
  tables, after writing them to the four LEBs.
\<close>

theorem attach_writes_empty_tables:
  "\<not> table_valid env_lost (read_table env_lost flash_lost 0) \<and>
   \<not> table_valid env_lost (read_table env_lost flash_lost 1) \<and>
   fst (ubi_read_volume_table env_lost flash_lost) = 0 \<and>
   snd (snd (ubi_read_volume_table env_lost flash_lost)) = Some ([0], [0]) \<and>
   io_log (fst (snd (ubi_read_volume_table env_lost flash_lost))) =
     [Unmap 0, Write 0 [0], Unmap 1, Write 1 [0], Unmap 2, Write 2 [0], Unmap 3, Write 3 [0]]"
proof -
  have c: "\<not> table_valid env_lost t" for t by (simp add: table_valid_def env_lost_def env_ok_def)
  have p: "process_lvol env_lost flash_lost = (- EINVAL, flash_lost, None)"
    by (rule process_lvol_copy0_invalid) (simp_all add: c, simp_all add: env_lost_def env_ok_def)
  have io: "io_ok env_lost" by (simp add: env_lost_def env_ok_def io_ok_def)
  have el: "empty_lvol_tables env_lost = Some ([0], [0])" "init_layout_volume env_lost = 0"
    "init_volumes env_lost [0] [0] = 0" "check_volume_pmap env_lost [0] [0] = 0"
    by (simp_all add: env_lost_def env_ok_def)
  have ce: "create_empty_lvol env_lost flash_lost =
     (0, \<lparr>lebs = (lebs flash_lost)(0 := [0], 1 := [0], 2 := [0], 3 := [0]),
          io_log = io_log flash_lost @ [Unmap 0, Write 0 [0], Unmap 1, Write 1 [0],
                                Unmap 2, Write 2 [0], Unmap 3, Write 3 [0]]\<rparr>, Some ([0], [0]))"
    by (simp add: create_empty_lvol_def el create_empty_copies_ok[OF io])
  have r: "ubi_read_volume_table env_lost flash_lost =
     (0, \<lparr>lebs = (lebs flash_lost)(0 := [0], 1 := [0], 2 := [0], 3 := [0]),
          io_log = io_log flash_lost @ [Unmap 0, Write 0 [0], Unmap 1, Write 1 [0],
                                Unmap 2, Write 2 [0], Unmap 3, Write 3 [0]]\<rparr>, Some ([0], [0]))"
    by (simp add: ubi_read_volume_table_def p ce EINVAL_def el)
  show ?thesis unfolding r using c by (simp add: flash_lost_def)
qed

section \<open>Properties of the PPO decoder\<close>

lemma popcount8_card: "popcount8 b = card {n. bit b n}"
proof -
  have "{n. bit b n} = set (filter (bit b) [0..<8])"
    using bit_imp_le_length[of b] by (auto simp: not_le[symmetric])
  moreover have "distinct (filter (bit b) [0..<8])" by simp
  ultimately show ?thesis
    unfolding popcount8_def by (simp only: distinct_card)
qed

text \<open>
  Claim C4. For every byte, the decoder yields the value 0 when the byte has at
  most two bits set, an invalid result when it has three, four or five bits
  set, and the value 1 when it has six, seven or eight bits set. A region with
  a three-to-five-bit byte anywhere does not decode; any other region decodes
  to the number of its leading bytes of value 0.
\<close>

theorem ppo_decode_classes:
  "(\<forall>b. ppo_decode_byte b =
         (if card {n. bit b n} \<le> 2 then Unit0
          else if card {n. bit b n} \<le> 5 then Invalid
          else Unit1)) \<and>
   (\<forall>region. (\<exists>b \<in> set region. 3 \<le> card {n. bit b n} \<and> card {n. bit b n} \<le> 5) \<longrightarrow>
        ppo_decode region = None) \<and>
   (\<forall>region. (\<forall>b \<in> set region. \<not> (3 \<le> card {n. bit b n} \<and> card {n. bit b n} \<le> 5)) \<longrightarrow>
        ppo_decode region =
          Some (length (takeWhile (\<lambda>b. card {n. bit b n} \<le> 2) region)))"
proof -
  have cls: "(if n = 0 then Unit0 else if n = 1 then Unit0 else if n = 2 then Unit0
              else if 3 \<le> n \<and> n \<le> 5 then Invalid else if n = 6 then Unit1
              else if n = 7 then Unit1 else Unit1) =
             (if n \<le> 2 then Unit0 else if n \<le> 5 then Invalid else Unit1)" for n :: nat
    by auto
  have byte: "ppo_decode_byte b =
         (if card {n. bit b n} \<le> 2 then Unit0
          else if card {n. bit b n} \<le> 5 then Invalid
          else Unit1)" for b
    unfolding ppo_decode_byte_def Let_def cls popcount8_card ..
  have inv: "(ppo_decode_byte b = Invalid) = (3 \<le> card {n. bit b n} \<and> card {n. bit b n} \<le> 5)" for b
    unfolding byte by simp
  have zero: "(ppo_decode_byte b = Unit0) = (card {n. bit b n} \<le> 2)" for b
    unfolding byte by simp
  show ?thesis
    unfolding ppo_decode_def inv zero using byte by simp
qed

theorem ppo_decode_classes_witness:
  "card {n. bit (0x40 :: 8 word) n} \<le> 2 \<and> ppo_decode_byte 0x40 = Unit0 \<and>
   3 \<le> card {n. bit (0x0F :: 8 word) n} \<and> card {n. bit (0x0F :: 8 word) n} \<le> 5 \<and>
   ppo_decode_byte 0x0F = Invalid \<and>
   ppo_decode [0x00, 0x00, 0xFF, 0x0F, 0xFF] = None"
proof -
  have p: "popcount8 0x40 = 1" "popcount8 0x0F = 4" by code_simp+
  have c40: "card {n. bit (0x40 :: 8 word) n} = 1" unfolding popcount8_card[symmetric] by (rule p(1))
  have c0F: "card {n. bit (0x0F :: 8 word) n} = 4" unfolding popcount8_card[symmetric] by (rule p(2))
  from ppo_decode_classes have
    B: "ppo_decode_byte b =
         (if card {n. bit b n} \<le> 2 then Unit0
          else if card {n. bit b n} \<le> 5 then Invalid else Unit1)" for b
    by blast
  from ppo_decode_classes have
    R: "(\<exists>b \<in> set region. 3 \<le> card {n. bit b n} \<and> card {n. bit b n} \<le> 5) \<longrightarrow>
        ppo_decode region = None" for region
    by blast
  have b40: "ppo_decode_byte 0x40 = Unit0" unfolding B c40 by simp
  have b0F: "ppo_decode_byte 0x0F = Invalid" unfolding B c0F by simp
  have "\<exists>b \<in> set [0x00, 0x00, 0xFF, 0x0F, 0xFF :: 8 word].
          3 \<le> card {n. bit b n} \<and> card {n. bit b n} \<le> 5"
    by (rule bexI[of _ "0x0F"]) (simp_all only: c0F, simp_all)
  with R have r: "ppo_decode [0x00, 0x00, 0xFF, 0x0F, 0xFF] = None" by blast
  have l: "card {n. bit (0x40 :: 8 word) n} \<le> 2" unfolding c40 by simp
  have m: "3 \<le> card {n. bit (0x0F :: 8 word) n}" "card {n. bit (0x0F :: 8 word) n} \<le> 5"
    unfolding c0F by simp_all
  from l b40 m b0F r show ?thesis by (intro conjI)
qed

end
